theory Spec2Isabelle
  imports Main "HOL-Library.Word"
begin

unbundle bit_operations_syntax

section \<open>Data model of kif.h\<close>

text \<open>
  The packed 16-byte header \<^verbatim>\<open>KIFHeader\<close>, field by field with the widths of the C struct.
\<close>

record KIFHeader =
  Magic :: "32 word"
  BPP :: "8 word"
  Compressed :: "8 word"
  palEntries :: "16 word"
  Width :: "16 word"
  Height :: "16 word"
  RLEEntries :: "32 word"

text \<open>
  \<^verbatim>\<open>kif_rgba_t\<close> is a union of the four bytes r, g, b, a and the 32-bit value \<^verbatim>\<open>v\<close>.
  The encoder only reads \<^verbatim>\<open>v\<close>, so its pixels and palette entries are \<open>32 word\<close>; the decoder
  only reads the four components. On the little-endian host the code is written for, r is
  the low byte of \<^verbatim>\<open>v\<close>.
\<close>

datatype kif_rgba_t = RGBA (rgba_r: "8 word") (rgba_g: "8 word") (rgba_b: "8 word") (rgba_a: "8 word")

text \<open>\<^verbatim>\<open>kif_rle_t\<close>: a palette index byte and a run length byte.\<close>

datatype kif_rle_t = RLE (pID: "8 word") (rle: "8 word")

text \<open>
  What a call can end in other than its result: \<open>NullResult\<close> is the \<^verbatim>\<open>return NULL\<close> of the
  argument checks, the only failure the code reports. The other three are the undefined
  behaviours of C the code can run into: a read or a write outside the block a pointer
  refers to, and a value that does not fit the \<^verbatim>\<open>int\<close> computed for it.
\<close>

datatype kif_error = NullResult | ReadOutOfBounds | WriteOutOfBounds | IntOverflow

definition bindr :: "kif_error + 'a \<Rightarrow> ('a \<Rightarrow> kif_error + 'b) \<Rightarrow> kif_error + 'b" where
  "bindr m f = (case m of Inl e \<Rightarrow> Inl e | Inr x \<Rightarrow> f x)"

text \<open>
  A block of memory is the list of the values that can be read from its pointer; reading at
  an index outside it is the fault \<open>ReadOutOfBounds\<close>.
\<close>

definition rd :: "'a list \<Rightarrow> nat \<Rightarrow> kif_error + 'a" where
  "rd buf k = (if k < length buf then Inr (buf ! k) else Inl ReadOutOfBounds)"

definition INT_MAX :: nat where
  "INT_MAX = 2147483647"

section \<open>Palette builder\<close>

text \<open>
  The inner search loop of \<^verbatim>\<open>_generate_palette\<close>: \<open>i\<close> runs from the start of the palette
  and stops at the first entry equal to the pixel, or at \<^verbatim>\<open>*NumberOfColors\<close>. The first
  argument is the part of the palette not yet compared.
\<close>

fun palette_search :: "32 word list \<Rightarrow> 32 word \<Rightarrow> nat \<Rightarrow> nat" where
  "palette_search [] c i = i"
| "palette_search (p # ps) c i = (if p = c then i else palette_search ps c (i + 1))"

text \<open>
  One pass of the outer loop for the pixel \<open>c\<close>. The palette is the list of its first
  \<^verbatim>\<open>*NumberOfColors\<close> entries, so that \<^verbatim>\<open>*NumberOfColors\<close> is its length.
\<close>

definition palette_add :: "32 word list \<Rightarrow> 32 word \<Rightarrow> 32 word list" where
  "palette_add Palette c =
     (let i = palette_search Palette c 0 in
      if i = length Palette then
        (if length Palette < 65536 then Palette @ [c] else Palette)
      else Palette)"

function palette_loop :: "32 word list \<Rightarrow> nat \<Rightarrow> nat \<Rightarrow> 32 word list \<Rightarrow> kif_error + 32 word list" where
  "palette_loop PaletteData PaletteDataLength Pos Palette =
     (if Pos < PaletteDataLength then
        bindr (rd PaletteData Pos) (\<lambda>c.
          palette_loop PaletteData PaletteDataLength (Pos + 1) (palette_add Palette c))
      else Inr Palette)"
  by pat_completeness auto
termination
  by (relation "measure (\<lambda>(d, n, pos, p). n - pos)") auto

declare palette_loop.simps [simp del]

text \<open>
  \<^verbatim>\<open>_generate_palette\<close>, called by \<^verbatim>\<open>kif_encode\<close> with \<^verbatim>\<open>*NumberOfColors = 0\<close>: entry 0 is set
  to 0 and counted, then the pixels are scanned. \<^verbatim>\<open>Width * Height\<close> is a product of two
  \<^verbatim>\<open>int\<close>s.
\<close>

definition generate_palette :: "32 word list \<Rightarrow> KIFHeader \<Rightarrow> kif_error + 32 word list" where
  "generate_palette Data Header =
     (let PaletteDataLength = unat (Width Header) * unat (Height Header) in
      if PaletteDataLength > INT_MAX then Inl IntOverflow
      else palette_loop Data PaletteDataLength 0 [0])"

section \<open>Encoder\<close>

text \<open>\<^verbatim>\<open>_in_palette\<close>: the index of the first entry equal to the colour, or -1.\<close>

fun in_palette_from :: "32 word \<Rightarrow> 32 word list \<Rightarrow> int \<Rightarrow> int" where
  "in_palette_from Color [] Index = -1"
| "in_palette_from Color (p # ps) Index =
     (if p = Color then Index else in_palette_from Color ps (Index + 1))"

definition in_palette :: "32 word \<Rightarrow> 32 word list \<Rightarrow> int" where
  "in_palette Color Palette = in_palette_from Color Palette 0"

text \<open>
  The run loop \<^verbatim>\<open>for(Count = 0; Count < 255; Count++)\<close>. It compares \<^verbatim>\<open>px_data[i]\<close> with
  the colour and has no test of \<open>i\<close> against \<^verbatim>\<open>DataLen\<close>; \<open>i\<close> is an \<^verbatim>\<open>int\<close>, incremented
  after each match. It returns \<open>i\<close> and \<open>rl\<close>.
\<close>

function run_scan :: "32 word list \<Rightarrow> 32 word \<Rightarrow> nat \<Rightarrow> nat \<Rightarrow> nat \<Rightarrow> kif_error + (nat \<times> nat)" where
  "run_scan px_data Color i Count rl =
     (if Count < 255 then
        bindr (rd px_data i) (\<lambda>p.
          if Color = p then
            (if i + 1 > INT_MAX then Inl IntOverflow
             else run_scan px_data Color (i + 1) (Count + 1) (rl + 1))
          else Inr (i, rl))
      else Inr (i, rl))"
  by pat_completeness auto
termination
  by (relation "measure (\<lambda>(d, c, i, cnt, rl). 255 - cnt)") auto

declare run_scan.simps [simp del]

text \<open>
  One pass of the outer loop of \<^verbatim>\<open>kif_encode\<close> at position \<open>i\<close>: the entry written to
  \<^verbatim>\<open>Encoded\<close> and the value of \<open>i\<close> after \<^verbatim>\<open>i--\<close> and the loop's \<^verbatim>\<open>i++\<close>. The \<^verbatim>\<open>int\<close> that
  \<^verbatim>\<open>_in_palette\<close> returns is stored in the \<^verbatim>\<open>unsigned char\<close> \<^verbatim>\<open>pID\<close>, and \<open>rl\<close> in \<^verbatim>\<open>rle\<close>.
\<close>

definition rle_step :: "32 word list \<Rightarrow> 32 word list \<Rightarrow> nat \<Rightarrow> kif_error + (kif_rle_t \<times> nat)" where
  "rle_step px_data Palette i =
     bindr (rd px_data i) (\<lambda>Color.
       bindr (run_scan px_data Color i 0 0) (\<lambda>(i', rl).
         Inr (RLE (word_of_int (in_palette Color Palette)) (word_of_nat rl), i' - 1 + 1)))"

text \<open>
  The outer loop \<^verbatim>\<open>for(i = 0; i < DataLen; i++)\<close>. \<open>Encoded\<close> holds the entries written so
  far, so that \<^verbatim>\<open>num_rle_entries\<close> and \<^verbatim>\<open>EncodedIndex\<close>, both incremented once per pass, are
  its length. The loop ends because the first comparison of a run scan is of the pixel
  with itself.
\<close>

function rle_loop :: "32 word list \<Rightarrow> 32 word list \<Rightarrow> nat \<Rightarrow> nat \<Rightarrow> kif_rle_t list \<Rightarrow> kif_error + kif_rle_t list" where
  "rle_loop px_data Palette DataLen i Encoded =
     (if i < DataLen then
        (case rle_step px_data Palette i of
           Inl e \<Rightarrow> Inl e
         | Inr (px_rle, i') \<Rightarrow> rle_loop px_data Palette DataLen i' (Encoded @ [px_rle]))
      else Inr Encoded)"
  by pat_completeness auto
termination
proof (relation "measure (\<lambda>(d, p, n, i, e). n - i)")
  show "wf (measure (\<lambda>(d, p, n, i, e). n - i))" by simp
next
  fix px_data :: "32 word list" and Palette :: "32 word list" and DataLen i :: nat
    and Encoded :: "kif_rle_t list" and x2 px_rle i'
  assume lt: "i < DataLen" and step: "rle_step px_data Palette i = Inr x2" and x2: "(px_rle, i') = x2"
  have mono: "run_scan d c j cnt rl = Inr (j', rl') \<Longrightarrow> j \<le> j'" for d c j cnt rl j' rl'
  proof (induction d c j cnt rl rule: run_scan.induct)
    case (1 d c j cnt rl)
    show ?case
    proof (cases "cnt < 255 \<and> j < length d \<and> c = d ! j")
      case True
      with "1.prems" have "\<not> INT_MAX < j + 1 \<and> run_scan d c (j + 1) (cnt + 1) (rl + 1) = Inr (j', rl')"
        by (subst (asm) run_scan.simps) (simp add: bindr_def rd_def split: if_splits)
      with "1.IH" [of "d ! j"] True have "j + 1 \<le> j'" by (simp add: rd_def)
      then show ?thesis by simp
    next
      case False
      with "1.prems" have "j' = j"
        by (subst (asm) run_scan.simps) (auto simp: bindr_def rd_def split: if_splits)
      then show ?thesis by simp
    qed
  qed
  from step x2 obtain j rl where i: "i < length px_data"
      and j: "run_scan px_data (px_data ! i) i 0 0 = Inr (j, rl)" and i': "i' = j - 1 + 1"
    by (auto simp: rle_step_def bindr_def rd_def split: if_splits sum.splits)
  from j i have "run_scan px_data (px_data ! i) (i + 1) (0 + 1) (0 + 1) = Inr (j, rl)"
    by (subst (asm) run_scan.simps) (simp add: bindr_def rd_def split: if_splits)
  then have "i + 1 \<le> j" by (rule mono)
  with i' lt
  show "((px_data, Palette, DataLen, i', Encoded @ [px_rle]), (px_data, Palette, DataLen, i, Encoded))
        \<in> measure (\<lambda>(d, p, n, i, e). n - i)"
    by simp
qed

declare rle_loop.simps [simp del]

text \<open>
  The bytes of the values that \<^verbatim>\<open>memcpy\<close> copies out of the header, the palette and the
  entries: the packed struct in the byte order of the little-endian host.
\<close>

definition bytes16 :: "16 word \<Rightarrow> 8 word list" where
  "bytes16 w = [ucast w, ucast (drop_bit 8 w)]"

definition bytes32 :: "32 word \<Rightarrow> 8 word list" where
  "bytes32 w = [ucast w, ucast (drop_bit 8 w), ucast (drop_bit 16 w), ucast (drop_bit 24 w)]"

definition header_bytes :: "KIFHeader \<Rightarrow> 8 word list" where
  "header_bytes h =
     bytes32 (Magic h) @ [BPP h, Compressed h] @ bytes16 (palEntries h) @
     bytes16 (Width h) @ bytes16 (Height h) @ bytes32 (RLEEntries h)"

definition palette_bytes :: "32 word list \<Rightarrow> 8 word list" where
  "palette_bytes Palette = concat (map bytes32 Palette)"

definition rle_bytes :: "kif_rle_t list \<Rightarrow> 8 word list" where
  "rle_bytes Encoded = concat (map (\<lambda>e. [pID e, rle e]) Encoded)"

text \<open>\<^verbatim>\<open>memcpy(dst + off, src, n)\<close> with \<open>n\<close> the length of \<open>src\<close>.\<close>

definition memcpy :: "8 word list \<Rightarrow> nat \<Rightarrow> 8 word list \<Rightarrow> kif_error + 8 word list" where
  "memcpy dst off src =
     (if off + length src \<le> length dst
      then Inr (take off dst @ src @ drop (off + length src) dst)
      else Inl WriteOutOfBounds)"

text \<open>
  \<^verbatim>\<open>kif_encode\<close>. \<open>Data\<close> and \<open>Header\<close> are \<open>None\<close> for a null pointer, \<open>OutputLength\<close>
  is \<open>False\<close> for one. The result is the header as the call leaves it, the output buffer
  and the value stored in \<^verbatim>\<open>*OutputLength\<close>. Allocation is taken to succeed; the fresh
  output block is modelled as zero bytes, all of which the three copies overwrite.
  \<^verbatim>\<open>palEntries\<close> is a \<^verbatim>\<open>uint16_t\<close> and \<^verbatim>\<open>RLEEntries\<close> a \<^verbatim>\<open>uint32_t\<close>, \<^verbatim>\<open>TotalSize\<close> an \<^verbatim>\<open>int\<close>.
\<close>

definition kif_encode :: "32 word list option \<Rightarrow> KIFHeader option \<Rightarrow> bool \<Rightarrow> kif_error + (KIFHeader \<times> 8 word list \<times> int)" where
  "kif_encode Data Header OutputLength =
     (case Data of None \<Rightarrow> Inl NullResult | Some px_data \<Rightarrow>
     (case Header of None \<Rightarrow> Inl NullResult | Some h \<Rightarrow>
      if \<not> OutputLength then Inl NullResult else
      bindr (generate_palette px_data h) (\<lambda>Palette.
        let NumberOfColors = length Palette;
            h1 = h\<lparr>palEntries := word_of_nat NumberOfColors\<rparr>;
            DataLen = unat (Width h1) * unat (Height h1)
        in bindr (rle_loop px_data Palette DataLen 0 []) (\<lambda>Encoded.
          let num_rle_entries = length Encoded;
              h2 = h1\<lparr>Magic := 0x6B696631, BPP := 4, Compressed := 0,
                      RLEEntries := word_of_nat num_rle_entries\<rparr>;
              TotalSize = 16 + 4 * NumberOfColors + num_rle_entries * 2
          in if TotalSize > INT_MAX then Inl IntOverflow else
             bindr (memcpy (replicate TotalSize 0) 0 (header_bytes h2)) (\<lambda>b1.
             bindr (memcpy b1 16 (palette_bytes Palette)) (\<lambda>b2.
             bindr (memcpy b2 (16 + 4 * NumberOfColors) (rle_bytes Encoded)) (\<lambda>OutputBuffer.
               Inr (h2, OutputBuffer, int TotalSize))))))))"

section \<open>Decoder\<close>

text \<open>
  \<^verbatim>\<open>_read16bit\<close> and \<^verbatim>\<open>_read32bit\<close> at the offset \<open>off\<close> of the input: the bytes are combined
  least significant first, by shifts and bitwise or.
\<close>

definition read16bit :: "8 word list \<Rightarrow> nat \<Rightarrow> kif_error + 16 word" where
  "read16bit buffer off =
     bindr (rd buffer (off + 1)) (\<lambda>b1. bindr (rd buffer off) (\<lambda>b0.
       Inr (push_bit 8 (ucast b1) OR ucast b0)))"

definition read32bit :: "8 word list \<Rightarrow> nat \<Rightarrow> kif_error + 32 word" where
  "read32bit buffer off =
     bindr (rd buffer (off + 3)) (\<lambda>b3. bindr (rd buffer (off + 2)) (\<lambda>b2.
     bindr (rd buffer (off + 1)) (\<lambda>b1. bindr (rd buffer off) (\<lambda>b0.
       Inr (push_bit 24 (ucast b3) OR push_bit 16 (ucast b2) OR push_bit 8 (ucast b1) OR ucast b0)))))"

text \<open>The seven assignments that fill the header struct from the input.\<close>

definition read_header :: "8 word list \<Rightarrow> kif_error + KIFHeader" where
  "read_header data_bytes =
     bindr (read32bit data_bytes 0) (\<lambda>m.
     bindr (rd data_bytes 4) (\<lambda>bpp.
     bindr (rd data_bytes 5) (\<lambda>cmp.
     bindr (read16bit data_bytes 6) (\<lambda>pe.
     bindr (read16bit data_bytes 8) (\<lambda>w.
     bindr (read16bit data_bytes 10) (\<lambda>ht.
     bindr (read32bit data_bytes 12) (\<lambda>re.
       Inr \<lparr>Magic = m, BPP = bpp, Compressed = cmp, palEntries = pe,
            Width = w, Height = ht, RLEEntries = re\<rparr>)))))))"

text \<open>
  \<^verbatim>\<open>kif_decode\<close> calls \<^verbatim>\<open>malloc\<close> twice, for the palette and for the decoded pixels, and
  tests neither result. What the two calls return is a parameter of the model: whether each
  block was granted. A block that was not granted is the null pointer, and a store through
  it is a write outside every block.
\<close>

record allocation =
  palette_granted :: bool
  decoded_granted :: bool

definition all_granted :: allocation where
  "all_granted = \<lparr>palette_granted = True, decoded_granted = True\<rparr>"

definition store_to :: "bool \<Rightarrow> 'a \<Rightarrow> kif_error + 'a" where
  "store_to granted x = (if granted then Inr x else Inl WriteOutOfBounds)"

text \<open>
  The palette loop, from entry \<open>i\<close> on with \<open>k\<close> entries left to read: four bytes each at
  \<^verbatim>\<open>sizeof(KIFHeader) + i * 4\<close>, each stored to \<^verbatim>\<open>Palette[i]\<close> once read.
\<close>

fun read_palette :: "bool \<Rightarrow> 8 word list \<Rightarrow> nat \<Rightarrow> nat \<Rightarrow> kif_error + kif_rgba_t list" where
  "read_palette granted data_bytes i 0 = Inr []"
| "read_palette granted data_bytes i (Suc k) =
     bindr (rd data_bytes (16 + i * 4)) (\<lambda>x. bindr (store_to granted x) (\<lambda>r.
     bindr (rd data_bytes (16 + i * 4 + 1)) (\<lambda>x. bindr (store_to granted x) (\<lambda>g.
     bindr (rd data_bytes (16 + i * 4 + 2)) (\<lambda>x. bindr (store_to granted x) (\<lambda>b.
     bindr (rd data_bytes (16 + i * 4 + 3)) (\<lambda>x. bindr (store_to granted x) (\<lambda>a.
     bindr (read_palette granted data_bytes (i + 1) k) (\<lambda>rest.
       Inr (RGBA r g b a # rest))))))))))"

text \<open>
  The output block \<^verbatim>\<open>Decoded\<close> has \<open>cap\<close> bytes, none when it is the null pointer; \<open>out\<close>
  is the list of the bytes written so far, so that \<^verbatim>\<open>DecodedIndex\<close> is its length.
  \<^verbatim>\<open>Decoded[DecodedIndex++] = x\<close>:
\<close>

definition put :: "nat \<Rightarrow> 8 word list \<Rightarrow> 8 word \<Rightarrow> kif_error + 8 word list" where
  "put cap out x = (if length out < cap then Inr (out @ [x]) else Inl WriteOutOfBounds)"

text \<open>
  One pass of the loop over \<open>j\<close>: the entry \<^verbatim>\<open>Palette[index]\<close> is read (the palette block has
  \<^verbatim>\<open>palEntries\<close> entries) and three or four bytes are written.
\<close>

definition write_pixel :: "nat \<Rightarrow> kif_rgba_t list \<Rightarrow> nat \<Rightarrow> int \<Rightarrow> 8 word list \<Rightarrow> kif_error + 8 word list" where
  "write_pixel cap Palette index OutputBPP out =
     bindr (rd Palette index) (\<lambda>p.
     bindr (put cap out (rgba_r p)) (\<lambda>o1.
     bindr (put cap o1 (rgba_g p)) (\<lambda>o2.
     bindr (put cap o2 (rgba_b p)) (\<lambda>o3.
       if OutputBPP = 32 then put cap o3 (rgba_a p) else Inr o3))))"

text \<open>The loop \<^verbatim>\<open>for(j = 0; j < RunLength; j++)\<close>, by the number of passes left.\<close>

fun expand_run :: "nat \<Rightarrow> kif_rgba_t list \<Rightarrow> nat \<Rightarrow> int \<Rightarrow> nat \<Rightarrow> 8 word list \<Rightarrow> kif_error + 8 word list" where
  "expand_run cap Palette index OutputBPP 0 out = Inr out"
| "expand_run cap Palette index OutputBPP (Suc k) out =
     bindr (write_pixel cap Palette index OutputBPP out)
       (expand_run cap Palette index OutputBPP k)"

text \<open>
  The loop over the RLE entries. \<open>base\<close> is \<^verbatim>\<open>sizeof(KIFHeader) + palEntries * 4\<close> and \<open>n\<close>
  is \<^verbatim>\<open>RLEEntries\<close>; \<^verbatim>\<open>i * 2\<close> is computed in \<^verbatim>\<open>int\<close>.
\<close>

function decode_loop :: "8 word list \<Rightarrow> nat \<Rightarrow> nat \<Rightarrow> nat \<Rightarrow> kif_rgba_t list \<Rightarrow> int \<Rightarrow> nat \<Rightarrow> 8 word list \<Rightarrow> kif_error + 8 word list" where
  "decode_loop data_bytes base n cap Palette OutputBPP i out =
     (if i < n then
        (if i * 2 > INT_MAX then Inl IntOverflow else
         bindr (rd data_bytes (base + i * 2)) (\<lambda>index.
         bindr (rd data_bytes (base + i * 2 + 1)) (\<lambda>RunLength.
         bindr (expand_run cap Palette (unat index) OutputBPP (unat RunLength) out) (\<lambda>out'.
           decode_loop data_bytes base n cap Palette OutputBPP (i + 1) out'))))
      else Inr out)"
  by pat_completeness auto
termination
  by (relation "measure (\<lambda>(d, b, n, c, p, bpp, i, out). n - i)") auto

declare decode_loop.simps [simp del]

text \<open>
  \<^verbatim>\<open>kif_decode\<close>, with the outcome of its two allocations. \<open>Data\<close> is \<open>None\<close> for a null
  pointer and \<open>Header\<close> is \<open>False\<close> for one (the struct is only written). \<^verbatim>\<open>Decoded\<close> is
  asked for as a block of \<^verbatim>\<open>Width * Height * 4\<close> bytes whatever the output depth; the size
  is computed in \<^verbatim>\<open>int\<close>. The call ends with \<^verbatim>\<open>return Decoded\<close>: the header read and the
  bytes written to the block, or the null pointer of an allocation that failed.
\<close>

definition kif_decode :: "allocation \<Rightarrow> 8 word list option \<Rightarrow> bool \<Rightarrow> int \<Rightarrow> kif_error + (KIFHeader \<times> 8 word list)" where
  "kif_decode alloc Data Header OutputBPP =
     (case Data of None \<Rightarrow> Inl NullResult | Some data_bytes \<Rightarrow>
      if \<not> Header \<or> (OutputBPP \<noteq> 24 \<and> OutputBPP \<noteq> 32) then Inl NullResult else
      bindr (read_header data_bytes) (\<lambda>h.
      bindr (read_palette (palette_granted alloc) data_bytes 0 (unat (palEntries h))) (\<lambda>Palette.
        let bytes = unat (Width h) * unat (Height h) * 4
        in if bytes > INT_MAX then Inl IntOverflow else
           let cap = (if decoded_granted alloc then bytes else 0)
           in bindr (decode_loop data_bytes (16 + unat (palEntries h) * 4) (unat (RLEEntries h))
                       cap Palette OutputBPP 0 []) (\<lambda>Decoded.
                if decoded_granted alloc then Inr (h, Decoded) else Inl NullResult))))"

section \<open>Reference definitions for the palette\<close>

text \<open>
  The palette as the specification words it: a pixel's colour is appended exactly when it
  is absent from the palette so far and fewer than 65536 entries exist, starting from the
  reserved entry.
\<close>

definition spec_palette_step :: "32 word list \<Rightarrow> 32 word \<Rightarrow> 32 word list" where
  "spec_palette_step pal c = (if c \<notin> set pal \<and> length pal < 65536 then pal @ [c] else pal)"

definition spec_palette :: "32 word list \<Rightarrow> 32 word list" where
  "spec_palette pixels = foldl spec_palette_step [0] pixels"

text \<open>The values of a list in the order of their first occurrence.\<close>

fun first_seen :: "'a list \<Rightarrow> 'a list" where
  "first_seen [] = []"
| "first_seen (x # xs) = x # first_seen (removeAll x xs)"

section \<open>Example inputs and measures\<close>

text \<open>A header as a caller passes it to \<^verbatim>\<open>kif_encode\<close>: only the size is set.\<close>

definition image_header :: "16 word \<Rightarrow> 16 word \<Rightarrow> KIFHeader" where
  "image_header w h = \<lparr>Magic = 0, BPP = 0, Compressed = 0, palEntries = 0, Width = w, Height = h, RLEEntries = 0\<rparr>"

text \<open>The sum of the run lengths of a list of entries.\<close>

definition run_total :: "kif_rle_t list \<Rightarrow> nat" where
  "run_total Encoded = sum_list (map (\<lambda>e. unat (rle e)) Encoded)"

section \<open>Reference definitions for files\<close>

text \<open>Two and four bytes as one value, least significant byte first.\<close>

definition le16 :: "8 word \<Rightarrow> 8 word \<Rightarrow> 16 word" where
  "le16 b0 b1 = push_bit 8 (ucast b1) OR ucast b0"

definition le32 :: "8 word \<Rightarrow> 8 word \<Rightarrow> 8 word \<Rightarrow> 8 word \<Rightarrow> 32 word" where
  "le32 b0 b1 b2 b3 = push_bit 24 (ucast b3) OR push_bit 16 (ucast b2) OR push_bit 8 (ucast b1) OR ucast b0"

text \<open>
  The layout of the specification: after the 16 bytes of the header, the palette records
  of four bytes, then the entries of two bytes from the offset \<open>base\<close> on.
\<close>

definition file_palette :: "8 word list \<Rightarrow> nat \<Rightarrow> kif_rgba_t list" where
  "file_palette buf P =
     map (\<lambda>i. RGBA (buf ! (16 + i * 4)) (buf ! (16 + i * 4 + 1)) (buf ! (16 + i * 4 + 2))
                  (buf ! (16 + i * 4 + 3))) [0..<P]"

definition file_entries :: "8 word list \<Rightarrow> nat \<Rightarrow> nat \<Rightarrow> kif_rle_t list" where
  "file_entries buf base R = map (\<lambda>i. RLE (buf ! (base + i * 2)) (buf ! (base + i * 2 + 1))) [0..<R]"

text \<open>The bytes of one output pixel, and the expansion of a list of entries.\<close>

definition pixel_out :: "int \<Rightarrow> kif_rgba_t \<Rightarrow> 8 word list" where
  "pixel_out OutputBPP p = [rgba_r p, rgba_g p, rgba_b p] @ (if OutputBPP = 32 then [rgba_a p] else [])"

definition expand :: "kif_rgba_t list \<Rightarrow> int \<Rightarrow> kif_rle_t list \<Rightarrow> 8 word list" where
  "expand Palette OutputBPP ents =
     concat (map (\<lambda>e. concat (replicate (unat (rle e)) (pixel_out OutputBPP (Palette ! unat (pID e))))) ents)"

text \<open>
  The size a file declares: 16 bytes of header, four bytes for each palette entry and two
  for each RLE entry. A buffer too short to hold a header declares the header.
\<close>

definition declared_size :: "8 word list \<Rightarrow> nat" where
  "declared_size buf =
     (case read_header buf of
        Inl e \<Rightarrow> 16
      | Inr h \<Rightarrow> 16 + 4 * unat (palEntries h) + 2 * unat (RLEEntries h))"

text \<open>
  A well-formed file, after the data model of the specification: the buffer holds all the
  bytes it declares, every index is the index of a palette entry, every run length is at
  least 1, the run lengths sum to \<open>Width * Height\<close>, and the size of the decoded block fits
  an \<^verbatim>\<open>int\<close>.
\<close>

definition kif_well_formed :: "8 word list \<Rightarrow> bool" where
  "kif_well_formed buf =
     (case read_header buf of
        Inl e \<Rightarrow> False
      | Inr h \<Rightarrow>
          let P = unat (palEntries h); R = unat (RLEEntries h);
              ents = file_entries buf (16 + P * 4) R
          in declared_size buf \<le> length buf \<and>
             unat (Width h) * unat (Height h) * 4 \<le> INT_MAX \<and>
             list_all (\<lambda>e. unat (pID e) < P \<and> 1 \<le> unat (rle e)) ents \<and>
             run_total ents = unat (Width h) * unat (Height h))"

text \<open>A result of \<^verbatim>\<open>kif_decode\<close> with the magic value of its header set to 0.\<close>

definition forget_magic :: "kif_error + (KIFHeader \<times> 8 word list) \<Rightarrow> kif_error + (KIFHeader \<times> 8 word list)" where
  "forget_magic r = (case r of Inl e \<Rightarrow> Inl e | Inr (h, px) \<Rightarrow> Inr (h\<lparr>Magic := 0\<rparr>, px))"

section \<open>Example files\<close>

text \<open>
  The file of a 1x1 image of the colour (10, 20, 30, 255): header, two palette entries, one
  RLE entry. Then the same file with its magic bytes zeroed, and its header alone.
\<close>

definition file_1x1 :: "8 word list" where
  "file_1x1 = [0x31, 0x66, 0x69, 0x6B, 4, 0, 2, 0, 1, 0, 1, 0, 1, 0, 0, 0,
               0, 0, 0, 0, 10, 20, 30, 255, 1, 1]"

definition file_1x1_no_magic :: "8 word list" where
  "file_1x1_no_magic = [0, 0, 0, 0, 4, 0, 2, 0, 1, 0, 1, 0, 1, 0, 0, 0,
               0, 0, 0, 0, 10, 20, 30, 255, 1, 1]"

definition header_only :: "8 word list" where
  "header_only = [0x31, 0x66, 0x69, 0x6B, 4, 0, 2, 0, 1, 0, 1, 0, 1, 0, 0, 0]"



section \<open>Example images with many colours\<close>

text \<open>
  A buffer of \<open>n\<close> pixels in which pixel \<open>k\<close> has the value \<open>k + 1\<close>, so that no two
  pixels are equal and none is 0; the palette of the values 0 to \<open>n - 1\<close>; and the entries
  that give pixel \<open>k\<close> the low byte of \<open>k + 1\<close> as its index, with run length 1.
\<close>

definition ramp :: "nat \<Rightarrow> 32 word list" where
  "ramp n = map (\<lambda>k. word_of_nat (k + 1)) [0..<n]"

definition ramp_palette :: "nat \<Rightarrow> 32 word list" where
  "ramp_palette n = map word_of_nat [0..<n]"

definition ramp_entries :: "nat \<Rightarrow> kif_rle_t list" where
  "ramp_entries n = map (\<lambda>k. RLE (word_of_nat (k + 1)) 1) [0..<n]"

section \<open>Reference definitions for the round trip\<close>

text \<open>
  The components of a colour value, as the union \<^verbatim>\<open>kif_rgba_t\<close> gives them on the
  little-endian host, and the pixels a list of entries stands for under a palette of values.
\<close>

definition rgba_of :: "32 word \<Rightarrow> kif_rgba_t" where
  "rgba_of w = RGBA (ucast w) (ucast (drop_bit 8 w)) (ucast (drop_bit 16 w)) (ucast (drop_bit 24 w))"

definition unrle :: "32 word list \<Rightarrow> kif_rle_t list \<Rightarrow> 32 word list" where
  "unrle Palette ents = concat (map (\<lambda>e. replicate (unat (rle e)) (Palette ! unat (pID e))) ents)"

section \<open>Basic facts about the loops\<close>

lemma bindr_Inr [simp]: "bindr (Inr x) f = f x"
  by (simp add: bindr_def)

lemma bindr_Inl [simp]: "bindr (Inl e) f = Inl e"
  by (simp add: bindr_def)

lemma bindr_eq_Inr: "bindr m f = Inr y \<longleftrightarrow> (\<exists>x. m = Inr x \<and> f x = Inr y)"
  by (cases m) simp_all

lemma rd_eq_Inr: "rd buf k = Inr x \<longleftrightarrow> k < length buf \<and> x = buf ! k"
  by (auto simp: rd_def)

lemma run_scan_rec:
  "cnt < 255 \<Longrightarrow> i < length d \<Longrightarrow> d ! i = c \<Longrightarrow> i < INT_MAX \<Longrightarrow>
     run_scan d c i cnt rl = run_scan d c (i + 1) (cnt + 1) (rl + 1)"
  by (subst run_scan.simps) (simp add: rd_def)

lemma run_scan_Inr_rec:
  "cnt < 255 \<and> i < length d \<and> d ! i = c \<Longrightarrow> run_scan d c i cnt rl = Inr r \<Longrightarrow>
     i < INT_MAX \<and> run_scan d c (i + 1) (cnt + 1) (rl + 1) = Inr r"
  by (subst (asm) run_scan.simps) (simp add: rd_def split: if_splits)

lemma run_scan_stop:
  "\<not> (cnt < 255 \<and> i < length d \<and> d ! i = c) \<Longrightarrow> run_scan d c i cnt rl = Inr (i', rl') \<Longrightarrow>
     i' = i \<and> rl' = rl"
  by (subst (asm) run_scan.simps) (auto simp: rd_def split: if_splits)

lemma run_scan_arith:
  "run_scan d c i cnt rl = Inr (i', rl') \<Longrightarrow> \<exists>m. i' = i + m \<and> rl' = rl + m \<and> m \<le> 255 - cnt"
proof (induction d c i cnt rl rule: run_scan.induct)
  case (1 d c i cnt rl)
  show ?case
  proof (cases "cnt < 255 \<and> i < length d \<and> d ! i = c")
    case True
    from run_scan_Inr_rec [OF True "1.prems"]
    have small: "i < INT_MAX" and rec: "run_scan d c (i + 1) (cnt + 1) (rl + 1) = Inr (i', rl')"
      by simp_all
    from "1.IH" [of "d ! i"] rec True small
    obtain m where m: "i' = i + 1 + m" "rl' = rl + 1 + m" "m \<le> 255 - (cnt + 1)"
      by (auto simp: rd_def)
    moreover from True have "cnt < 255" by simp
    ultimately have "i' = i + (m + 1) \<and> rl' = rl + (m + 1) \<and> m + 1 \<le> 255 - cnt"
      by arith
    then show ?thesis by blast
  next
    case False
    from run_scan_stop [OF False "1.prems"] show ?thesis by simp
  qed
qed

lemma run_scan_elems:
  "run_scan d c i cnt rl = Inr (i', rl') \<Longrightarrow> i \<le> k \<Longrightarrow> k < i' \<Longrightarrow> k < length d \<and> d ! k = c"
proof (induction d c i cnt rl rule: run_scan.induct)
  case (1 d c i cnt rl)
  show ?case
  proof (cases "cnt < 255 \<and> i < length d \<and> d ! i = c")
    case True
    from run_scan_Inr_rec [OF True "1.prems"(1)]
    have small: "i < INT_MAX" and rec: "run_scan d c (i + 1) (cnt + 1) (rl + 1) = Inr (i', rl')"
      by simp_all
    show ?thesis
    proof (cases "k = i")
      case True
      with \<open>cnt < 255 \<and> i < length d \<and> d ! i = c\<close> show ?thesis by simp
    next
      case False
      with "1.prems" have "i + 1 \<le> k" by simp
      with "1.IH" [of "d ! i"] rec True small "1.prems"(3) show ?thesis by (simp add: rd_def)
    qed
  next
    case False
    from run_scan_stop [OF False "1.prems"(1)] "1.prems" show ?thesis by simp
  qed
qed

lemma rle_step_Inr:
  assumes "rle_step px pal i = Inr (e, i')"
  shows "i < length px" and "i < i'" and "i' - i \<le> 255" and "unat (rle e) = i' - i"
    and "pID e = word_of_int (in_palette (px ! i) pal)"
    and "\<And>k. i \<le> k \<Longrightarrow> k < i' \<Longrightarrow> k < length px \<and> px ! k = px ! i"
proof -
  from assms have i: "i < length px"
    by (cases "i < length px") (simp_all add: rle_step_def rd_def)
  then have unf: "rle_step px pal i =
      bindr (run_scan px (px ! i) i 0 0) (\<lambda>(i', rl).
        Inr (RLE (word_of_int (in_palette (px ! i) pal)) (word_of_nat rl), i' - 1 + 1))"
    by (simp add: rle_step_def rd_def)
  obtain j rl where j: "run_scan px (px ! i) i 0 0 = Inr (j, rl)"
  proof (cases "run_scan px (px ! i) i 0 0")
    case (Inl err)
    with unf assms show ?thesis by simp
  next
    case (Inr r)
    with that show ?thesis by (cases r) simp
  qed
  with unf assms have i': "i' = j - 1 + 1"
    and e: "e = RLE (word_of_int (in_palette (px ! i) pal)) (word_of_nat rl)"
    by simp_all
  from run_scan_Inr_rec [OF _ j] i
  have rec: "run_scan px (px ! i) (i + 1) (0 + 1) (0 + 1) = Inr (j, rl)"
    by simp
  from run_scan_arith [OF rec] have 1: "i + 1 \<le> j" by auto
  from run_scan_arith [OF j] have 2: "j = i + rl" "rl \<le> 255" by auto
  from 1 i' have eq: "i' = j" by simp
  show "i < length px" by (rule i)
  show "i < i'" using 1 eq by simp
  show "i' - i \<le> 255" using 2 eq by simp
  have "unat (word_of_nat rl :: 8 word) = rl"
    using 2 by (simp add: unat_of_nat)
  then show "unat (rle e) = i' - i" using e 2 eq by simp
  show "pID e = word_of_int (in_palette (px ! i) pal)" using e by simp
  show "\<And>k. i \<le> k \<Longrightarrow> k < i' \<Longrightarrow> k < length px \<and> px ! k = px ! i"
    by (rule run_scan_elems [OF j]) (simp_all add: eq)
qed

lemma rle_loop_done: "\<not> i < n \<Longrightarrow> rle_loop px pal n i acc = Inr acc"
  by (subst rle_loop.simps) simp

lemma rle_loop_step:
  "i < n \<Longrightarrow> rle_step px pal i = Inr (e, i') \<Longrightarrow>
     rle_loop px pal n i acc = rle_loop px pal n i' (acc @ [e])"
  by (subst rle_loop.simps) simp

lemma rle_loop_fail:
  "i < n \<Longrightarrow> rle_step px pal i = Inl err \<Longrightarrow> rle_loop px pal n i acc = Inl err"
  by (subst rle_loop.simps) simp

lemma rle_loop_Inr:
  "rle_loop px pal n i acc = Inr ents \<Longrightarrow>
     \<exists>new. ents = acc @ new \<and> length new \<le> n - i \<and> (i < n \<longrightarrow> new \<noteq> []) \<and>
       (\<forall>e \<in> set new. 1 \<le> unat (rle e) \<and> unat (rle e) \<le> 255)"
proof (induction px pal n i acc rule: rle_loop.induct)
  case (1 px pal n i acc)
  show ?case
  proof (cases "i < n")
    case False
    with "1.prems" have "ents = acc" by (simp add: rle_loop_done)
    with False show ?thesis by simp
  next
    case True
    show ?thesis
    proof (cases "rle_step px pal i")
      case (Inl err)
      with True "1.prems" show ?thesis by (simp add: rle_loop_fail)
    next
      case (Inr r)
      obtain e i' where r: "r = (e, i')" by (cases r)
      with Inr have step: "rle_step px pal i = Inr (e, i')" by simp
      with True "1.prems" have rec: "rle_loop px pal n i' (acc @ [e]) = Inr ents"
        by (simp add: rle_loop_step)
      from "1.IH" [OF True step refl rec] obtain new where new: "ents = (acc @ [e]) @ new"
        "length new \<le> n - i'" "\<forall>x \<in> set new. 1 \<le> unat (rle x) \<and> unat (rle x) \<le> 255"
        by blast
      from rle_step_Inr(2,3,4) [OF step] have e: "i < i'" "1 \<le> unat (rle e)" "unat (rle e) \<le> 255"
        by simp_all
      have "ents = acc @ (e # new)" using new by simp
      moreover have "length (e # new) \<le> n - i" using new e True by simp
      moreover have "\<forall>x \<in> set (e # new). 1 \<le> unat (rle x) \<and> unat (rle x) \<le> 255"
        using new e by simp
      ultimately show ?thesis by blast
    qed
  qed
qed

subsection \<open>The palette builder\<close>

lemma palette_search_full_from:
  "palette_search ps c i = i + length ps \<longleftrightarrow> c \<notin> set ps"
proof (induction ps arbitrary: i)
  case Nil
  show ?case by simp
next
  case (Cons p ps)
  from Cons [of "i + 1"] show ?case by auto
qed

lemma palette_search_full:
  "palette_search ps c 0 = length ps \<longleftrightarrow> c \<notin> set ps"
  using palette_search_full_from [of ps c 0] by simp

lemma palette_add_eq: "palette_add pal c = spec_palette_step pal c"
  by (simp add: palette_add_def spec_palette_step_def palette_search_full)

lemma palette_loop_done: "\<not> pos < n \<Longrightarrow> palette_loop d n pos pal = Inr pal"
  by (subst palette_loop.simps) simp

lemma palette_loop_step:
  "pos < n \<Longrightarrow> pos < length d \<Longrightarrow>
     palette_loop d n pos pal = palette_loop d n (pos + 1) (palette_add pal (d ! pos))"
  by (subst palette_loop.simps) (simp add: rd_def)

lemma palette_loop_fail:
  "pos < n \<Longrightarrow> \<not> pos < length d \<Longrightarrow> palette_loop d n pos pal = Inl ReadOutOfBounds"
  by (subst palette_loop.simps) (simp add: rd_def)

lemma palette_loop_eq:
  "palette_loop d n pos pal =
     (if n \<le> length d \<or> n \<le> pos then Inr (foldl spec_palette_step pal (take (n - pos) (drop pos d)))
      else Inl ReadOutOfBounds)"
proof (induction d n pos pal rule: palette_loop.induct)
  case (1 d n pos pal)
  show ?case
  proof (cases "pos < n")
    case False
    then show ?thesis by (simp add: palette_loop_done)
  next
    case True
    show ?thesis
    proof (cases "pos < length d")
      case False
      with True show ?thesis by (simp add: palette_loop_fail)
    next
      case inb: True
      have split: "take (n - pos) (drop pos d) = d ! pos # take (n - (pos + 1)) (drop (pos + 1) d)"
      proof -
        from inb have "drop pos d = d ! pos # drop (Suc pos) d" by (simp add: Cons_nth_drop_Suc)
        moreover from True have "n - pos = Suc (n - (pos + 1))" by simp
        ultimately show ?thesis by simp
      qed
      have "palette_loop d n pos pal = palette_loop d n (pos + 1) (palette_add pal (d ! pos))"
        using True inb by (rule palette_loop_step)
      also have "\<dots> = (if n \<le> length d \<or> n \<le> pos + 1
          then Inr (foldl spec_palette_step (palette_add pal (d ! pos)) (take (n - (pos + 1)) (drop (pos + 1) d)))
          else Inl ReadOutOfBounds)"
        using "1.IH" [OF True, of "d ! pos"] inb by (simp add: rd_def)
      also have "\<dots> = (if n \<le> length d \<or> n \<le> pos
          then Inr (foldl spec_palette_step pal (take (n - pos) (drop pos d)))
          else Inl ReadOutOfBounds)"
        using True inb by (auto simp: split palette_add_eq)
      finally show ?thesis .
    qed
  qed
qed

lemma spec_fold_distinct:
  "distinct pal \<Longrightarrow> distinct (foldl spec_palette_step pal xs)"
  by (induction xs arbitrary: pal) (simp_all add: spec_palette_step_def)

lemma spec_fold_prefix:
  "\<exists>ys. foldl spec_palette_step pal xs = pal @ ys"
proof (induction xs arbitrary: pal)
  case Nil
  show ?case by simp
next
  case (Cons x xs)
  from Cons [of "spec_palette_step pal x"] obtain ys
    where ys: "foldl spec_palette_step (spec_palette_step pal x) xs = spec_palette_step pal x @ ys"
    by blast
  have "spec_palette_step pal x = pal @ [x] \<or> spec_palette_step pal x = pal"
    by (simp add: spec_palette_step_def)
  then show ?case
  proof
    assume "spec_palette_step pal x = pal @ [x]"
    with ys have "foldl spec_palette_step pal (x # xs) = pal @ (x # ys)" by simp
    then show ?thesis by blast
  next
    assume "spec_palette_step pal x = pal"
    with ys have "foldl spec_palette_step pal (x # xs) = pal @ ys" by simp
    then show ?thesis by blast
  qed
qed

lemma filter_removeAll_notin:
  "filter (\<lambda>y. y \<notin> set (pal @ [x])) xs = removeAll x (filter (\<lambda>y. y \<notin> set pal) xs)"
  by (induction xs) auto

lemma spec_fold_first_seen:
  "length pal \<le> 65536 \<Longrightarrow>
     foldl spec_palette_step pal xs = take 65536 (pal @ first_seen (filter (\<lambda>y. y \<notin> set pal) xs))"
proof (induction xs arbitrary: pal)
  case Nil
  then show ?case by simp
next
  case (Cons x xs)
  show ?case
  proof (cases "x \<in> set pal")
    case True
    with Cons show ?thesis by (simp add: spec_palette_step_def)
  next
    case False
    show ?thesis
    proof (cases "length pal < 65536")
      case True
      with False have "foldl spec_palette_step pal (x # xs) = foldl spec_palette_step (pal @ [x]) xs"
        by (simp add: spec_palette_step_def)
      also from True have "\<dots> = take 65536 ((pal @ [x]) @ first_seen (filter (\<lambda>y. y \<notin> set (pal @ [x])) xs))"
        by (intro Cons.IH) simp
      also have "\<dots> = take 65536 (pal @ first_seen (filter (\<lambda>y. y \<notin> set pal) (x # xs)))"
        using False by (simp add: filter_removeAll_notin del: set_append)
      finally show ?thesis .
    next
      case full: False
      with Cons.prems have len: "length pal = 65536" by simp
      from False full have "foldl spec_palette_step pal (x # xs) = foldl spec_palette_step pal xs"
        by (simp add: spec_palette_step_def)
      also from Cons.prems have "\<dots> = take 65536 (pal @ first_seen (filter (\<lambda>y. y \<notin> set pal) xs))"
        by (rule Cons.IH)
      also from len have "\<dots> = pal" by simp
      also from len have "pal = take 65536 (pal @ first_seen (filter (\<lambda>y. y \<notin> set pal) (x # xs)))"
        by simp
      finally show ?thesis .
    qed
  qed
qed

lemma generate_palette_eq:
  "generate_palette Data Header =
     (let n = unat (Width Header) * unat (Height Header) in
      if n > INT_MAX then Inl IntOverflow
      else if n \<le> length Data then Inr (spec_palette (take n Data))
      else Inl ReadOutOfBounds)"
  by (simp add: generate_palette_def Let_def palette_loop_eq spec_palette_def)

text \<open>
  C3. Whenever the buffer holds the \<open>Width * Height\<close> pixels of the image, \<^verbatim>\<open>_generate_palette\<close>
  produces a palette whose entry 0 is transparent black, whether or not 0 is a pixel of the
  image, that has no two equal entries, and that is the list the specification describes:
  each pixel's colour, in scan order, is appended exactly when it is absent so far and
  fewer than 65536 entries exist. That list is the first 65536 values of the reserved entry
  followed by the pixels, in the order of their first occurrence.
\<close>

theorem generate_palette_first_seen:
  assumes "unat (Width Header) * unat (Height Header) = n" and "n \<le> INT_MAX" and "n \<le> length Data"
  shows "\<exists>Palette. generate_palette Data Header = Inr Palette \<and>
           Palette ! 0 = 0 \<and> distinct Palette \<and>
           Palette = spec_palette (take n Data) \<and>
           Palette = take 65536 (first_seen (0 # take n Data))"
proof -
  let ?P = "spec_palette (take n Data)"
  from assms have "generate_palette Data Header = Inr ?P"
    by (simp add: generate_palette_eq)
  moreover have "?P ! 0 = 0"
    using spec_fold_prefix [of "[0]" "take n Data"] by (auto simp: spec_palette_def)
  moreover have "distinct ?P"
    by (simp add: spec_palette_def spec_fold_distinct)
  moreover have "?P = take 65536 (first_seen (0 # take n Data))"
  proof -
    have "filter (\<lambda>y. y \<notin> set [0]) xs = removeAll 0 xs" for xs :: "32 word list"
      by (induction xs) auto
    then show ?thesis
      using spec_fold_first_seen [of "[0]" "take n Data"] by (simp add: spec_palette_def)
  qed
  ultimately show ?thesis by blast
qed

theorem generate_palette_first_seen_witness:
  "generate_palette [7, 7, 9, 0, 7] (image_header 2 2) = Inr [0, 7, 9] \<and>
   [0, 7, 9 :: 32 word] = take 65536 (first_seen (0 # take 4 [7, 7, 9, 0, 7]))"
  using generate_palette_first_seen [of "image_header 2 2" 4 "[7, 7, 9, 0, 7]"]
  by (simp add: image_header_def INT_MAX_def spec_palette_def spec_palette_step_def)

subsection \<open>The output buffer\<close>

lemma length_bytes16 [simp]: "length (bytes16 w) = 2"
  by (simp add: bytes16_def)

lemma length_bytes32 [simp]: "length (bytes32 w) = 4"
  by (simp add: bytes32_def)

lemma length_header_bytes [simp]: "length (header_bytes h) = 16"
  by (simp add: header_bytes_def)

lemma length_palette_bytes [simp]: "length (palette_bytes pal) = 4 * length pal"
  by (induction pal) (simp_all add: palette_bytes_def)

lemma length_rle_bytes [simp]: "length (rle_bytes ents) = 2 * length ents"
  by (induction ents) (simp_all add: rle_bytes_def)

lemma memcpy_fresh:
  "length src \<le> k \<Longrightarrow>
     memcpy (pre @ replicate k 0) (length pre) src = Inr ((pre @ src) @ replicate (k - length src) 0)"
  by (simp add: memcpy_def)

lemma three_copies:
  assumes "length hb = 16" and "length pb = 4 * n" and "length rb = 2 * m"
  shows "bindr (memcpy (replicate (16 + 4 * n + m * 2) 0) 0 hb) (\<lambda>b1.
         bindr (memcpy b1 16 pb) (\<lambda>b2.
         bindr (memcpy b2 (16 + 4 * n) rb) (\<lambda>b3. f b3))) = f (hb @ pb @ rb)"
proof -
  have 1: "memcpy (replicate (16 + 4 * n + m * 2) 0) 0 hb = Inr (hb @ replicate (4 * n + m * 2) 0)"
    using memcpy_fresh [of hb "16 + 4 * n + m * 2" "[]"] assms by simp
  have 2: "memcpy (hb @ replicate (4 * n + m * 2) 0) 16 pb = Inr ((hb @ pb) @ replicate (m * 2) 0)"
    using memcpy_fresh [of pb "4 * n + m * 2" hb] assms by simp
  have 3: "memcpy ((hb @ pb) @ replicate (m * 2) 0) (16 + 4 * n) rb = Inr (hb @ pb @ rb)"
    using memcpy_fresh [of rb "m * 2" "hb @ pb"] assms by simp
  show ?thesis by (simp only: 1 2 3 bindr_Inr)
qed

lemma kif_encode_eq:
  "kif_encode (Some px_data) (Some h) True =
     bindr (generate_palette px_data h) (\<lambda>Palette.
     bindr (rle_loop px_data Palette (unat (Width h) * unat (Height h)) 0 []) (\<lambda>Encoded.
       if 16 + 4 * length Palette + length Encoded * 2 > INT_MAX then Inl IntOverflow
       else Inr (h\<lparr>palEntries := word_of_nat (length Palette), Magic := 0x6B696631, BPP := 4,
                   Compressed := 0, RLEEntries := word_of_nat (length Encoded)\<rparr>,
                 header_bytes (h\<lparr>palEntries := word_of_nat (length Palette), Magic := 0x6B696631,
                   BPP := 4, Compressed := 0, RLEEntries := word_of_nat (length Encoded)\<rparr>)
                   @ palette_bytes Palette @ rle_bytes Encoded,
                 int (16 + 4 * length Palette + length Encoded * 2))))"
  by (simp add: kif_encode_def Let_def three_copies cong: if_cong)

lemma kif_encode_null:
  "kif_encode None Header ol = Inl NullResult"
  "kif_encode Data None ol = Inl NullResult"
  "kif_encode Data Header False = Inl NullResult"
  by (simp_all add: kif_encode_def split: option.splits)

subsection \<open>The encoder\<close>

lemmas encode_eval =
  kif_encode_eq generate_palette_eq spec_palette_def spec_palette_step_def image_header_def
  rle_loop.simps rle_step_def run_scan.simps rd_def in_palette_def INT_MAX_def Let_def

lemma unat_of_nat32_id: "n \<le> INT_MAX \<Longrightarrow> unat (word_of_nat n :: 32 word) = n"
  by (simp add: unat_of_nat INT_MAX_def)

text \<open>
  C10. Whenever \<^verbatim>\<open>kif_encode\<close> returns a buffer for a non-null pixel buffer and header, the
  entries it emitted are the result of the run-length loop, their number is what the
  header's \<^verbatim>\<open>RLEEntries\<close> holds, it is at most \<open>Width * Height\<close>, and it is at least 1 when
  \<open>Width * Height\<close> is positive: every pass of the loop starts at a pixel of the image and
  consumes at least that pixel.
\<close>

theorem kif_encode_entry_count:
  assumes "kif_encode (Some px_data) (Some h) True = Inr (h', OutputBuffer, len)"
  shows "\<exists>Palette Encoded.
           generate_palette px_data h = Inr Palette \<and>
           rle_loop px_data Palette (unat (Width h) * unat (Height h)) 0 [] = Inr Encoded \<and>
           OutputBuffer = header_bytes h' @ palette_bytes Palette @ rle_bytes Encoded \<and>
           unat (RLEEntries h') = length Encoded \<and>
           length Encoded \<le> unat (Width h) * unat (Height h) \<and>
           (0 < unat (Width h) * unat (Height h) \<longrightarrow> 1 \<le> length Encoded)"
proof -
  let ?n = "unat (Width h) * unat (Height h)"
  from assms obtain Palette where pal: "generate_palette px_data h = Inr Palette"
    by (cases "generate_palette px_data h") (simp_all add: kif_encode_eq)
  with assms obtain Encoded where enc: "rle_loop px_data Palette ?n 0 [] = Inr Encoded"
    by (cases "rle_loop px_data Palette ?n 0 []") (simp_all add: kif_encode_eq)
  from assms pal enc have size: "16 + 4 * length Palette + length Encoded * 2 \<le> INT_MAX"
    by (cases "16 + 4 * length Palette + length Encoded * 2 > INT_MAX") (simp_all add: kif_encode_eq)
  with assms pal enc have h': "h' = h\<lparr>palEntries := word_of_nat (length Palette), Magic := 0x6B696631,
      BPP := 4, Compressed := 0, RLEEntries := word_of_nat (length Encoded)\<rparr>"
    and out: "OutputBuffer = header_bytes h' @ palette_bytes Palette @ rle_bytes Encoded"
    by (auto simp: kif_encode_eq)
  from size have "length Encoded \<le> INT_MAX" by simp
  with h' have cnt: "unat (RLEEntries h') = length Encoded" by (simp add: unat_of_nat32_id)
  from rle_loop_Inr [OF enc] have "length Encoded \<le> ?n" and "0 < ?n \<longrightarrow> 1 \<le> length Encoded"
    by (auto simp: Suc_le_eq)
  with pal enc out cnt show ?thesis
    by (intro exI [of _ Palette] exI [of _ Encoded]) simp
qed

theorem kif_encode_entry_count_witness:
  "kif_encode (Some [7, 7, 8, 8, 9]) (Some (image_header 2 2)) True =
     Inr (\<lparr>Magic = 0x6B696631, BPP = 4, Compressed = 0, palEntries = 3, Width = 2, Height = 2,
           RLEEntries = 2\<rparr>,
          [0x31, 0x66, 0x69, 0x6B, 4, 0, 3, 0, 2, 0, 2, 0, 2, 0, 0, 0,
           0, 0, 0, 0, 7, 0, 0, 0, 8, 0, 0, 0, 1, 2, 2, 2], 32) \<and>
   rle_loop [7, 7, 8, 8, 9] [0, 7, 8] 4 0 [] = Inr [RLE 1 2, RLE 2 2] \<and>
   length [RLE 1 2, RLE 2 2] \<le> unat (2 :: 16 word) * unat (2 :: 16 word)"
proof -
  have e: "kif_encode (Some [7, 7, 8, 8, 9]) (Some (image_header 2 2)) True =
     Inr (\<lparr>Magic = 0x6B696631, BPP = 4, Compressed = 0, palEntries = 3, Width = 2, Height = 2,
           RLEEntries = 2\<rparr>,
          [0x31, 0x66, 0x69, 0x6B, 4, 0, 3, 0, 2, 0, 2, 0, 2, 0, 0, 0,
           0, 0, 0, 0, 7, 0, 0, 0, 8, 0, 0, 0, 1, 2, 2, 2], 32)"
    by (simp add: encode_eval header_bytes_def palette_bytes_def rle_bytes_def bytes16_def bytes32_def)
  from kif_encode_entry_count [OF e] e show ?thesis
    by (simp add: encode_eval)
qed

text \<open>
  C2, evaluated. The run scan compares \<^verbatim>\<open>px_data[i]\<close> without testing \<open>i\<close> against
  \<^verbatim>\<open>DataLen\<close>. For a 2x1 image of one colour in a buffer of exactly two pixels the scan reads
  the pixel after the buffer. Where the memory behind the image can be read and goes on
  with the same colour (a buffer of four pixels, the fourth of another colour), the single
  entry emitted has run length 3, so the run lengths sum to 3 and not to
  \<open>Width * Height = 2\<close>.
\<close>

theorem kif_encode_run_past_image:
  "kif_encode (Some [7, 7]) (Some (image_header 2 1)) True = Inl ReadOutOfBounds \<and>
   rle_loop [7, 7, 7, 8] [0, 7] (unat (2 :: 16 word) * unat (1 :: 16 word)) 0 [] = Inr [RLE 1 3] \<and>
   run_total [RLE 1 3] = 3 \<and>
   kif_encode (Some [7, 7, 7, 8]) (Some (image_header 2 1)) True =
     Inr (\<lparr>Magic = 0x6B696631, BPP = 4, Compressed = 0, palEntries = 2, Width = 2, Height = 1,
           RLEEntries = 1\<rparr>,
          [0x31, 0x66, 0x69, 0x6B, 4, 0, 2, 0, 2, 0, 1, 0, 1, 0, 0, 0,
           0, 0, 0, 0, 7, 0, 0, 0, 1, 3], 26)"
  by (simp add: encode_eval run_total_def header_bytes_def palette_bytes_def rle_bytes_def bytes16_def bytes32_def)

subsection \<open>The decoder\<close>

lemma read16bit_eq:
  "read16bit buf off = (if off + 1 < length buf then Inr (le16 (buf ! off) (buf ! (off + 1))) else Inl ReadOutOfBounds)"
  by (simp add: read16bit_def rd_def le16_def)

lemma read32bit_eq:
  "read32bit buf off = (if off + 3 < length buf
     then Inr (le32 (buf ! off) (buf ! (off + 1)) (buf ! (off + 2)) (buf ! (off + 3)))
     else Inl ReadOutOfBounds)"
  by (simp add: read32bit_def rd_def le32_def)

lemma read_header_eq:
  "read_header buf =
     (if 16 \<le> length buf then
        Inr \<lparr>Magic = le32 (buf ! 0) (buf ! 1) (buf ! 2) (buf ! 3), BPP = buf ! 4, Compressed = buf ! 5,
             palEntries = le16 (buf ! 6) (buf ! 7), Width = le16 (buf ! 8) (buf ! 9),
             Height = le16 (buf ! 10) (buf ! 11),
             RLEEntries = le32 (buf ! 12) (buf ! 13) (buf ! 14) (buf ! 15)\<rparr>
      else Inl ReadOutOfBounds)"
  by (simp add: read_header_def read16bit_eq read32bit_eq rd_def numeral_2_eq_2 [symmetric])


lemma read_palette_eq:
  "read_palette True buf i k =
     (if k = 0 \<or> 16 + (i + k) * 4 \<le> length buf
      then Inr (map (\<lambda>j. RGBA (buf ! (16 + j * 4)) (buf ! (16 + j * 4 + 1)) (buf ! (16 + j * 4 + 2))
                     (buf ! (16 + j * 4 + 3))) [i..<i + k])
      else Inl ReadOutOfBounds)"
proof (induction k arbitrary: i)
  case 0
  show ?case by simp
next
  case (Suc k)
  show ?case
  proof (cases "16 + i * 4 + 3 < length buf")
    case False
    then show ?thesis by (auto simp: rd_def store_to_def)
  next
    case True
    have "[i..<i + Suc k] = i # [i + 1..<i + 1 + k]" by (simp add: upt_conv_Cons)
    with True Suc [of "i + 1"] show ?thesis by (auto simp: rd_def store_to_def)
  qed
qed

lemma read_palette_denied:
  "read_palette False buf i (Suc k) =
     (if 16 + i * 4 < length buf then Inl WriteOutOfBounds else Inl ReadOutOfBounds)"
  by (simp add: rd_def store_to_def)

lemma write_pixel_eq:
  "write_pixel cap pal idx bpp out =
     (if idx < length pal then
        (if length out + length (pixel_out bpp (pal ! idx)) \<le> cap
         then Inr (out @ pixel_out bpp (pal ! idx)) else Inl WriteOutOfBounds)
      else Inl ReadOutOfBounds)"
  by (simp add: write_pixel_def rd_def put_def pixel_out_def)

lemma length_pixel_out: "length (pixel_out bpp p) = (if bpp = 32 then 4 else 3)"
  by (simp add: pixel_out_def)

lemma expand_run_eq:
  "expand_run cap pal idx bpp k out =
     (if k = 0 then Inr out
      else if \<not> idx < length pal then Inl ReadOutOfBounds
      else if length out + k * (if bpp = 32 then 4 else 3) \<le> cap
        then Inr (out @ concat (replicate k (pixel_out bpp (pal ! idx))))
        else Inl WriteOutOfBounds)"
proof (induction k arbitrary: out)
  case 0
  show ?case by simp
next
  case (Suc k)
  show ?case
  proof (cases "idx < length pal")
    case False
    then show ?thesis by (simp add: write_pixel_eq)
  next
    case True
    show ?thesis
    proof (cases "length out + (if bpp = 32 then 4 else 3) \<le> cap")
      case False
      with True show ?thesis by (simp add: write_pixel_eq length_pixel_out)
    next
      case fits: True
      with True have "expand_run cap pal idx bpp (Suc k) out =
          expand_run cap pal idx bpp k (out @ pixel_out bpp (pal ! idx))"
        by (simp add: write_pixel_eq length_pixel_out)
      with True fits Suc [of "out @ pixel_out bpp (pal ! idx)"] show ?thesis
        by (auto simp: length_pixel_out)
    qed
  qed
qed

lemma decode_loop_done:
  "\<not> i < n \<Longrightarrow> decode_loop buf base n cap pal bpp i out = Inr out"
  by (subst decode_loop.simps) simp

lemma decode_loop_unfold:
  "i < n \<Longrightarrow> decode_loop buf base n cap pal bpp i out =
     (if i * 2 > INT_MAX then Inl IntOverflow
      else if \<not> base + i * 2 + 1 < length buf then Inl ReadOutOfBounds
      else bindr (expand_run cap pal (unat (buf ! (base + i * 2))) bpp (unat (buf ! (base + i * 2 + 1))) out)
             (decode_loop buf base n cap pal bpp (i + 1)))"
  by (subst decode_loop.simps) (simp add: rd_def)

lemma expand_run_ok:
  "idx < length pal \<Longrightarrow> length out + k * (if bpp = 32 then 4 else 3) \<le> cap \<Longrightarrow>
     expand_run cap pal idx bpp k out = Inr (out @ concat (replicate k (pixel_out bpp (pal ! idx))))"
  by (simp add: expand_run_eq)

lemma expand_run_not_null: "expand_run cap pal idx bpp k out \<noteq> Inl NullResult"
  by (simp add: expand_run_eq)

lemma decode_loop_not_null:
  "decode_loop buf base n cap pal bpp i out \<noteq> Inl NullResult"
proof (induction buf base n cap pal bpp i out rule: decode_loop.induct)
  case (1 buf base n cap pal bpp i out)
  show ?case
  proof (cases "i < n")
    case False
    then show ?thesis by (simp add: decode_loop_done)
  next
    case True
    show ?thesis
    proof (cases "i * 2 > INT_MAX \<or> \<not> base + i * 2 + 1 < length buf")
      case True
      with \<open>i < n\<close> show ?thesis by (auto simp: decode_loop_unfold)
    next
      case False
      let ?r = "expand_run cap pal (unat (buf ! (base + i * 2))) bpp (unat (buf ! (base + i * 2 + 1))) out"
      show ?thesis
      proof (cases ?r)
        case (Inl e)
        with expand_run_not_null [of cap pal "unat (buf ! (base + i * 2))" bpp
            "unat (buf ! (base + i * 2 + 1))" out]
        have "e \<noteq> NullResult" by auto
        with Inl False \<open>i < n\<close> show ?thesis by (simp add: decode_loop_unfold)
      next
        case (Inr out')
        from False have a: "\<not> INT_MAX < i * 2" and b: "base + i * 2 < length buf"
          and c: "base + i * 2 + 1 < length buf" by simp_all
        from "1.IH" [OF \<open>i < n\<close> a]
        have "decode_loop buf base n cap pal bpp (i + 1) out' \<noteq> Inl NullResult" .
        with Inr False \<open>i < n\<close> show ?thesis by (simp add: decode_loop_unfold)
      qed
    qed
  qed
qed

lemma decode_loop_Inr_length:
  "decode_loop buf base n cap pal bpp i out = Inr r \<Longrightarrow> i < n \<Longrightarrow> base + n * 2 \<le> length buf"
proof (induction buf base n cap pal bpp i out rule: decode_loop.induct)
  case (1 buf base n cap pal bpp i out)
  from "1.prems" have a: "\<not> INT_MAX < i * 2" and c: "base + i * 2 + 1 < length buf"
    by (auto simp: decode_loop_unfold split: if_splits)
  then have b: "base + i * 2 < length buf" by simp
  let ?r = "expand_run cap pal (unat (buf ! (base + i * 2))) bpp (unat (buf ! (base + i * 2 + 1))) out"
  from "1.prems" a c obtain out' where out': "?r = Inr out'"
      and rec: "decode_loop buf base n cap pal bpp (i + 1) out' = Inr r"
    by (cases ?r) (simp_all add: decode_loop_unfold)
  show ?case
  proof (cases "i + 1 < n")
    case True
    from "1.IH" [OF \<open>i < n\<close> a rec True] show ?thesis .
  next
    case False
    with \<open>i < n\<close> have "n = i + 1" by simp
    with c show ?thesis by simp
  qed
qed

lemma run_total_Cons [simp]: "run_total (e # es) = unat (rle e) + run_total es"
  by (simp add: run_total_def)

lemma run_total_Nil [simp]: "run_total [] = 0"
  by (simp add: run_total_def)

lemma expand_Cons:
  "expand pal bpp (e # es) =
     concat (replicate (unat (rle e)) (pixel_out bpp (pal ! unat (pID e)))) @ expand pal bpp es"
  by (simp add: expand_def)

lemma upt_entries_Cons:
  "i < n \<Longrightarrow> map f [i..<n] = f i # map f [i + 1..<n]"
  by (simp add: upt_conv_Cons)

lemma decode_loop_ok:
  assumes "base + n * 2 \<le> length buf" and "n * 2 \<le> INT_MAX"
  shows "list_all (\<lambda>e. unat (pID e) < length pal)
           (map (\<lambda>j. RLE (buf ! (base + j * 2)) (buf ! (base + j * 2 + 1))) [i..<n]) \<Longrightarrow>
         length out + (if bpp = 32 then 4 else 3) *
           run_total (map (\<lambda>j. RLE (buf ! (base + j * 2)) (buf ! (base + j * 2 + 1))) [i..<n]) \<le> cap \<Longrightarrow>
         decode_loop buf base n cap pal bpp i out =
           Inr (out @ expand pal bpp (map (\<lambda>j. RLE (buf ! (base + j * 2)) (buf ! (base + j * 2 + 1))) [i..<n]))"
proof (induction "n - i" arbitrary: i out)
  case 0
  then have "\<not> i < n" by simp
  then show ?case by (simp add: decode_loop_done expand_def)
next
  case (Suc d)
  let ?f = "\<lambda>j. RLE (buf ! (base + j * 2)) (buf ! (base + j * 2 + 1))"
  let ?B = "(if bpp = 32 then 4 else 3) :: nat"
  from Suc.hyps(2) have lt: "i < n" by simp
  then have cons: "map ?f [i..<n] = ?f i # map ?f [i + 1..<n]" by (rule upt_entries_Cons)
  let ?idx = "unat (buf ! (base + i * 2))" and ?k = "unat (buf ! (base + i * 2 + 1))"
  let ?out' = "out @ concat (replicate ?k (pixel_out bpp (pal ! ?idx)))"
  from Suc.prems(1) have idx: "?idx < length pal"
    and rest: "list_all (\<lambda>e. unat (pID e) < length pal) (map ?f [i + 1..<n])"
    unfolding cons by simp_all
  from Suc.prems(2) have total: "length out + ?B * (?k + run_total (map ?f [i + 1..<n])) \<le> cap"
    unfolding cons by (simp only: run_total_Cons kif_rle_t.sel)
  have fit: "length out + ?k * ?B \<le> cap"
  proof -
    have "?k * ?B \<le> ?B * (?k + run_total (map ?f [i + 1..<n]))"
      by (simp add: algebra_simps)
    with total show ?thesis by linarith
  qed
  have len': "length ?out' = length out + ?k * ?B"
    by (simp add: length_concat length_pixel_out sum_list_replicate)
  have fit': "length ?out' + ?B * run_total (map ?f [i + 1..<n]) \<le> cap"
    using total len' by (simp add: algebra_simps)
  from lt assms have inb: "base + i * 2 + 1 < length buf" and small: "\<not> INT_MAX < i * 2" by simp_all
  from Suc.hyps(2) have d: "d = n - (i + 1)" by simp
  have "decode_loop buf base n cap pal bpp i out = decode_loop buf base n cap pal bpp (i + 1) ?out'"
    using lt inb small expand_run_ok [OF idx fit] by (simp add: decode_loop_unfold)
  also have "\<dots> = Inr (?out' @ expand pal bpp (map ?f [i + 1..<n]))"
    using Suc.hyps(1) [OF d rest fit'] .
  also have "?out' @ expand pal bpp (map ?f [i + 1..<n]) = out @ expand pal bpp (map ?f [i..<n])"
    unfolding cons by (simp only: expand_Cons kif_rle_t.sel append_assoc)
  finally show ?case .
qed


lemma length_le_run_total:
  "list_all (\<lambda>e. 1 \<le> unat (rle e)) es \<Longrightarrow> length es \<le> run_total es"
  by (induction es) auto

lemma read_header_not_null: "read_header buf \<noteq> Inl NullResult"
  by (simp add: read_header_eq)

lemma read_palette_not_null: "read_palette granted buf i k \<noteq> Inl NullResult"
proof (cases granted)
  case True
  then show ?thesis by (simp add: read_palette_eq)
next
  case False
  then show ?thesis by (cases k) (simp_all add: read_palette_denied del: read_palette.simps(2))
qed

lemma read_palette_Inr_length:
  assumes "read_palette granted buf 0 k = Inr pal"
  shows "k = 0 \<or> 16 + k * 4 \<le> length buf"
proof (cases granted)
  case True
  with assms show ?thesis by (simp add: read_palette_eq split: if_splits)
next
  case False
  with assms show ?thesis
    by (cases k) (simp_all add: read_palette_denied del: read_palette.simps(2) split: if_splits)
qed

text \<open>
  A call with a buffer, a header pointer and a depth of 24 or 32 that comes to its
  \<^verbatim>\<open>return\<close> has read the header and the palette and run the loop over all entries; what
  it returns is the decoded block, or the null pointer when that block was not granted.
\<close>

lemma kif_decode_finished:
  assumes bpp: "OutputBPP = 24 \<or> OutputBPP = 32"
    and fin: "kif_decode alloc (Some buf) True OutputBPP = Inl NullResult \<or>
              kif_decode alloc (Some buf) True OutputBPP = Inr r"
  obtains h pal D where "read_header buf = Inr h"
    and "read_palette (palette_granted alloc) buf 0 (unat (palEntries h)) = Inr pal"
    and "unat (Width h) * unat (Height h) * 4 \<le> INT_MAX"
    and "decode_loop buf (16 + unat (palEntries h) * 4) (unat (RLEEntries h))
           (if decoded_granted alloc then unat (Width h) * unat (Height h) * 4 else 0)
           pal OutputBPP 0 [] = Inr D"
    and "kif_decode alloc (Some buf) True OutputBPP =
           (if decoded_granted alloc then Inr (h, D) else Inl NullResult)"
proof (cases "read_header buf")
  case (Inl e)
  with read_header_not_null [of buf] bpp fin show ?thesis by (auto simp: kif_decode_def)
next
  case (Inr h)
  note h = this
  let ?P = "unat (palEntries h)"
  show ?thesis
  proof (cases "read_palette (palette_granted alloc) buf 0 ?P")
    case (Inl e)
    with read_palette_not_null [of "palette_granted alloc" buf 0 ?P] h bpp fin show ?thesis
      by (auto simp: kif_decode_def)
  next
    case (Inr pal)
    note pal = this
    let ?bytes = "unat (Width h) * unat (Height h) * 4"
    let ?cap = "if decoded_granted alloc then ?bytes else 0"
    let ?loop = "decode_loop buf (16 + ?P * 4) (unat (RLEEntries h)) ?cap pal OutputBPP 0 []"
    show ?thesis
    proof (cases "?bytes \<le> INT_MAX")
      case False
      with h pal bpp fin show ?thesis by (auto simp: kif_decode_def Let_def)
    next
      case True
      note fits = this
      show ?thesis
      proof (cases ?loop)
        case (Inl e)
        with decode_loop_not_null [of buf "16 + ?P * 4" "unat (RLEEntries h)" ?cap pal OutputBPP 0 "[]"]
        have "e \<noteq> NullResult" by auto
        with Inl h pal fits bpp fin show ?thesis by (auto simp: kif_decode_def Let_def)
      next
        case (Inr D)
        with h pal fits bpp
        have "kif_decode alloc (Some buf) True OutputBPP =
            (if decoded_granted alloc then Inr (h, D) else Inl NullResult)"
          by (auto simp: kif_decode_def Let_def)
        with h pal fits Inr show ?thesis by (rule that)
      qed
    qed
  qed
qed



lemma kif_decode_well_formed:
  assumes wf: "kif_well_formed buf" and bpp: "OutputBPP = 24 \<or> OutputBPP = 32"
    and h: "read_header buf = Inr h"
    and granted: "palette_granted alloc" "decoded_granted alloc"
  shows "kif_decode alloc (Some buf) True OutputBPP =
           Inr (h, expand (file_palette buf (unat (palEntries h))) OutputBPP
                     (file_entries buf (16 + unat (palEntries h) * 4) (unat (RLEEntries h))))"
proof -
  let ?P = "unat (palEntries h)" and ?R = "unat (RLEEntries h)"
  let ?n = "unat (Width h) * unat (Height h)"
  let ?ents = "file_entries buf (16 + ?P * 4) ?R"
  let ?B = "(if OutputBPP = 32 then 4 else 3) :: nat"
  from wf h have size: "16 + 4 * ?P + 2 * ?R \<le> length buf" and cap: "?n * 4 \<le> INT_MAX"
    and idx: "list_all (\<lambda>e. unat (pID e) < ?P) ?ents" and run: "list_all (\<lambda>e. 1 \<le> unat (rle e)) ?ents"
    and total: "run_total ?ents = ?n"
    by (simp_all add: kif_well_formed_def declared_size_def Let_def list_all_iff)
  have pal: "read_palette (palette_granted alloc) buf 0 ?P = Inr (file_palette buf ?P)"
    using size granted by (simp add: read_palette_eq file_palette_def)
  have "length ?ents \<le> run_total ?ents" using run by (rule length_le_run_total)
  then have "?R \<le> ?n" using total by (simp add: file_entries_def)
  with cap have small: "?R * 2 \<le> INT_MAX" by simp
  have inb: "16 + ?P * 4 + ?R * 2 \<le> length buf" using size by simp
  have idx': "list_all (\<lambda>e. unat (pID e) < length (file_palette buf ?P))
      (map (\<lambda>j. RLE (buf ! (16 + ?P * 4 + j * 2)) (buf ! (16 + ?P * 4 + j * 2 + 1))) [0..<?R])"
    using idx by (simp add: file_entries_def file_palette_def)
  have fit: "length ([] :: 8 word list) + ?B *
      run_total (map (\<lambda>j. RLE (buf ! (16 + ?P * 4 + j * 2)) (buf ! (16 + ?P * 4 + j * 2 + 1))) [0..<?R]) \<le> ?n * 4"
    using total by (simp add: file_entries_def)
  have "decode_loop buf (16 + ?P * 4) ?R (?n * 4) (file_palette buf ?P) OutputBPP 0 [] =
      Inr ([] @ expand (file_palette buf ?P) OutputBPP ?ents)"
    unfolding file_entries_def by (rule decode_loop_ok [OF inb small idx' fit])
  with pal h bpp cap granted show ?thesis
    by (auto simp: kif_decode_def Let_def)
qed

lemma granted_all [simp]: "palette_granted all_granted" "decoded_granted all_granted"
  by (simp_all add: all_granted_def)

lemmas file_eval =
  read_header_eq le16_def le32_def declared_size_def kif_well_formed_def file_entries_def
  file_palette_def expand_def pixel_out_def run_total_def INT_MAX_def Let_def

lemma header_file_1x1:
  "read_header file_1x1 = Inr \<lparr>Magic = 0x6B696631, BPP = 4, Compressed = 0, palEntries = 2,
     Width = 1, Height = 1, RLEEntries = 1\<rparr>"
  by (simp add: file_1x1_def file_eval)

lemma well_formed_file_1x1: "kif_well_formed file_1x1"
  by (simp add: kif_well_formed_def header_file_1x1 declared_size_def)
     (simp add: file_1x1_def file_entries_def run_total_def INT_MAX_def)




lemma rd_agree:
  assumes "length b1 = length b2" and "drop 4 b1 = drop 4 b2" and "4 \<le> k"
  shows "rd b1 k = rd (b2 :: 'a list) k"
proof (cases "k < length b1")
  case False
  with assms show ?thesis by (simp add: rd_def)
next
  case True
  from True assms(3) have e1: "drop 4 b1 ! (k - 4) = b1 ! k"
    by (simp add: nth_drop)
  from True assms(1,3) have e2: "drop 4 b2 ! (k - 4) = b2 ! k"
    by (simp add: nth_drop)
  have "b1 ! k = drop 4 b1 ! (k - 4)" by (rule e1 [symmetric])
  also have "\<dots> = drop 4 b2 ! (k - 4)" by (simp only: assms(2))
  also have "\<dots> = b2 ! k" by (rule e2)
  finally show ?thesis using True assms(1) by (simp add: rd_def)
qed

lemma read_palette_agree:
  assumes "\<And>k. 4 \<le> k \<Longrightarrow> rd b1 k = rd b2 k"
  shows "read_palette granted b1 i n = read_palette granted b2 i n"
  by (induction n arbitrary: i) (simp_all add: assms)

lemma decode_loop_agree:
  assumes "\<And>k. 4 \<le> k \<Longrightarrow> rd b1 k = rd b2 k" and "4 \<le> base"
  shows "decode_loop b1 base n cap pal bpp i out = decode_loop b2 base n cap pal bpp i out"
proof (induction "n - i" arbitrary: i out)
  case 0
  then show ?case by (simp add: decode_loop_done)
next
  case (Suc d)
  then have d: "d = n - (i + 1)" by simp
  have rec: "decode_loop b1 base n cap pal bpp (i + 1) = decode_loop b2 base n cap pal bpp (i + 1)"
    by (rule ext) (rule Suc.hyps(1) [OF d])
  from assms have r: "rd b1 (base + i * 2) = rd b2 (base + i * 2)"
    "rd b1 (base + i * 2 + 1) = rd b2 (base + i * 2 + 1)" by simp_all
  show ?case
    unfolding decode_loop.simps [of b1 base n cap pal bpp i out]
      decode_loop.simps [of b2 base n cap pal bpp i out]
    by (simp only: r rec)
qed

text \<open>
  C9. \<^verbatim>\<open>kif_decode\<close> does not look at the magic value. For two buffers of the same length
  that agree from byte 4 on, the two calls end alike, whatever the outcome of the
  allocations: the same fault or failure, or the same pixels and headers equal in every
  field but \<open>Magic\<close>, which holds the first four bytes of the buffer decoded.
\<close>

theorem kif_decode_ignores_magic:
  assumes "length b1 = length b2" and "drop 4 b1 = drop 4 b2"
  shows "forget_magic (kif_decode alloc (Some b1) Header OutputBPP) =
         forget_magic (kif_decode alloc (Some b2) Header OutputBPP) \<and>
         (\<forall>h px. kif_decode alloc (Some b1) Header OutputBPP = Inr (h, px) \<longrightarrow>
            Magic h = le32 (b1 ! 0) (b1 ! 1) (b1 ! 2) (b1 ! 3))"
proof
  have rd: "\<And>k. 4 \<le> k \<Longrightarrow> rd b1 k = rd b2 k" using assms by (rule rd_agree)
  show "forget_magic (kif_decode alloc (Some b1) Header OutputBPP) =
        forget_magic (kif_decode alloc (Some b2) Header OutputBPP)"
  proof (cases "16 \<le> length b1 \<and> Header \<and> (OutputBPP = 24 \<or> OutputBPP = 32)")
    case False
    with assms show ?thesis by (auto simp: kif_decode_def read_header_eq)
  next
    case True
    let ?h1 = "\<lparr>Magic = le32 (b1 ! 0) (b1 ! 1) (b1 ! 2) (b1 ! 3), BPP = b1 ! 4, Compressed = b1 ! 5,
             palEntries = le16 (b1 ! 6) (b1 ! 7), Width = le16 (b1 ! 8) (b1 ! 9),
             Height = le16 (b1 ! 10) (b1 ! 11),
             RLEEntries = le32 (b1 ! 12) (b1 ! 13) (b1 ! 14) (b1 ! 15)\<rparr>"
    have same: "b1 ! k = b2 ! k" if "4 \<le> k" "k < 16" for k
      using rd [OF that(1)] that(2) True assms by (simp add: rd_def)
    from True have h1: "read_header b1 = Inr ?h1" by (simp add: read_header_eq)
    from True assms have h2: "read_header b2 = Inr (?h1\<lparr>Magic := le32 (b2 ! 0) (b2 ! 1) (b2 ! 2) (b2 ! 3)\<rparr>)"
      by (simp add: read_header_eq same)
    have pal: "read_palette g b1 0 n = read_palette g b2 0 n" for g n
      using rd by (rule read_palette_agree)
    have loop: "decode_loop b1 (16 + m) n cap p OutputBPP 0 [] = decode_loop b2 (16 + m) n cap p OutputBPP 0 []"
      for m n cap p
      by (rule decode_loop_agree [OF rd]) simp_all
    let ?P = "read_palette (palette_granted alloc) b2 0 (unat (palEntries ?h1))"
    show ?thesis
    proof (cases ?P)
      case (Inl e)
      with True h1 h2 pal show ?thesis by (auto simp: kif_decode_def forget_magic_def)
    next
      case (Inr p)
      let ?cap = "if decoded_granted alloc then unat (Width ?h1) * unat (Height ?h1) * 4 else 0"
      let ?L = "decode_loop b2 (16 + unat (palEntries ?h1) * 4) (unat (RLEEntries ?h1))
                 ?cap p OutputBPP 0 []"
      from loop have L: "decode_loop b1 (16 + unat (palEntries ?h1) * 4) (unat (RLEEntries ?h1))
                 ?cap p OutputBPP 0 [] = ?L" .
      show ?thesis
      proof (cases ?L)
        case (Inl e)
        with Inr True h1 h2 pal L show ?thesis
          by (auto simp: kif_decode_def forget_magic_def Let_def)
      next
        case (Inr D)
        with \<open>?P = Inr p\<close> True h1 h2 pal L show ?thesis
          by (auto simp: kif_decode_def forget_magic_def Let_def)
      qed
    qed
  qed
  show "\<forall>h px. kif_decode alloc (Some b1) Header OutputBPP = Inr (h, px) \<longrightarrow>
            Magic h = le32 (b1 ! 0) (b1 ! 1) (b1 ! 2) (b1 ! 3)"
    by (auto simp: kif_decode_def read_header_eq bindr_eq_Inr Let_def split: if_splits)
qed

lemma header_file_1x1_no_magic:
  "read_header file_1x1_no_magic = Inr \<lparr>Magic = 0, BPP = 4, Compressed = 0, palEntries = 2,
     Width = 1, Height = 1, RLEEntries = 1\<rparr>"
  by (simp add: file_1x1_no_magic_def file_eval)

lemma well_formed_file_1x1_no_magic: "kif_well_formed file_1x1_no_magic"
  by (simp add: kif_well_formed_def header_file_1x1_no_magic declared_size_def)
     (simp add: file_1x1_no_magic_def file_entries_def run_total_def INT_MAX_def)

theorem kif_decode_ignores_magic_witness:
  "length file_1x1 = length file_1x1_no_magic \<and> drop 4 file_1x1 = drop 4 file_1x1_no_magic \<and>
   kif_decode all_granted (Some file_1x1) True 32 =
     Inr (\<lparr>Magic = 0x6B696631, BPP = 4, Compressed = 0, palEntries = 2,
            Width = 1, Height = 1, RLEEntries = 1\<rparr>, [10, 20, 30, 255]) \<and>
   kif_decode all_granted (Some file_1x1_no_magic) True 32 =
     Inr (\<lparr>Magic = 0, BPP = 4, Compressed = 0, palEntries = 2,
            Width = 1, Height = 1, RLEEntries = 1\<rparr>, [10, 20, 30, 255]) \<and>
   forget_magic (kif_decode all_granted (Some file_1x1) True 32) =
     forget_magic (kif_decode all_granted (Some file_1x1_no_magic) True 32)"
proof -
  have l: "length file_1x1 = length file_1x1_no_magic"
    and d: "drop 4 file_1x1 = drop 4 file_1x1_no_magic"
    by (simp_all add: file_1x1_def file_1x1_no_magic_def)
  have d1: "kif_decode all_granted (Some file_1x1) True 32 =
     Inr (\<lparr>Magic = 0x6B696631, BPP = 4, Compressed = 0, palEntries = 2,
            Width = 1, Height = 1, RLEEntries = 1\<rparr>, [10, 20, 30, 255])"
    using kif_decode_well_formed [OF well_formed_file_1x1 _ header_file_1x1, of 32 all_granted]
    by (simp add: file_1x1_def file_palette_def file_entries_def expand_def pixel_out_def)
  have d2: "kif_decode all_granted (Some file_1x1_no_magic) True 32 =
     Inr (\<lparr>Magic = 0, BPP = 4, Compressed = 0, palEntries = 2,
            Width = 1, Height = 1, RLEEntries = 1\<rparr>, [10, 20, 30, 255])"
    using kif_decode_well_formed [OF well_formed_file_1x1_no_magic _ header_file_1x1_no_magic, of 32 all_granted]
    by (simp add: file_1x1_no_magic_def file_palette_def file_entries_def expand_def pixel_out_def)
  from kif_decode_ignores_magic [OF l d, of all_granted True 32] l d d1 d2 show ?thesis by simp
qed

lemma kif_decode_finished_length:
  assumes bpp: "OutputBPP = 24 \<or> OutputBPP = 32"
    and fin: "kif_decode alloc (Some buf) True OutputBPP = Inl NullResult \<or>
              kif_decode alloc (Some buf) True OutputBPP = Inr r"
  shows "declared_size buf \<le> length buf"
proof -
  from bpp fin obtain h pal D where h: "read_header buf = Inr h"
    and pal: "read_palette (palette_granted alloc) buf 0 (unat (palEntries h)) = Inr pal"
    and loop: "decode_loop buf (16 + unat (palEntries h) * 4) (unat (RLEEntries h))
           (if decoded_granted alloc then unat (Width h) * unat (Height h) * 4 else 0)
           pal OutputBPP 0 [] = Inr D"
    by (rule kif_decode_finished)
  let ?P = "unat (palEntries h)" and ?R = "unat (RLEEntries h)"
  from h have len: "16 \<le> length buf" by (simp add: read_header_eq split: if_splits)
  from read_palette_Inr_length [OF pal] have plen: "?P = 0 \<or> 16 + ?P * 4 \<le> length buf" .
  have "16 + 4 * ?P + 2 * ?R \<le> length buf"
  proof (cases "0 < ?R")
    case True
    from decode_loop_Inr_length [OF loop True] show ?thesis by simp
  next
    case False
    with plen len show ?thesis by auto
  qed
  with h show ?thesis by (simp add: declared_size_def)
qed

text \<open>
  C5, amended. \<^verbatim>\<open>kif_decode\<close> is not given the length of its input and checks none. For a
  buffer shorter than the size its header declares and a depth of 24 or 32, the call neither
  fails nor returns an image, whatever the outcome of the allocations: it ends in a fault,
  the read past the end of the buffer unless another fault comes first.
\<close>

theorem kif_decode_short_buffer:
  assumes "length buf < declared_size buf" and "OutputBPP = 24 \<or> OutputBPP = 32"
  shows "\<exists>e. kif_decode alloc (Some buf) True OutputBPP = Inl e \<and> e \<noteq> NullResult"
proof (cases "kif_decode alloc (Some buf) True OutputBPP")
  case (Inl e)
  show ?thesis
  proof (cases "e = NullResult")
    case True
    with Inl have "declared_size buf \<le> length buf"
      by (intro kif_decode_finished_length [OF assms(2), of alloc buf undefined]) simp
    with assms(1) show ?thesis by simp
  next
    case False
    with Inl show ?thesis by simp
  qed
next
  case (Inr r)
  then have "declared_size buf \<le> length buf"
    by (intro kif_decode_finished_length [OF assms(2), of alloc buf r]) simp
  with assms(1) show ?thesis by simp
qed

theorem kif_decode_short_buffer_witness:
  "length header_only < declared_size header_only \<and>
   (\<exists>e. kif_decode all_granted (Some header_only) True 24 = Inl e \<and> e \<noteq> NullResult)"
proof -
  have "length header_only < declared_size header_only"
    by (simp add: header_only_def file_eval)
  with kif_decode_short_buffer [of header_only 24 all_granted] show ?thesis by simp
qed

text \<open>
  C5 as stated fails on the 16 bytes of a header that declares two palette entries and one
  RLE entry: the palette loop reads byte 16, past the end; no failure is returned.
\<close>

theorem kif_decode_short_buffer_counterexample:
  "length header_only < declared_size header_only \<and>
   kif_decode all_granted (Some header_only) True 32 = Inl ReadOutOfBounds \<and>
   kif_decode all_granted (Some header_only) True 32 \<noteq> Inl NullResult"
  by (simp add: header_only_def file_eval kif_decode_def read_palette_eq)

subsection \<open>Evaluations on small images\<close>

lemma replicate_numeral_Cons:
  "replicate (numeral k) x = x # replicate (pred_numeral k) x"
  by (simp add: numeral_eq_Suc)

lemmas decode_eval =
  replicate_numeral_Cons kif_decode_def read_header_eq read_palette_eq le16_def le32_def decode_loop.simps
  all_granted_def
  expand_run_eq pixel_out_def rd_def INT_MAX_def Let_def

text \<open>
  C8, evaluated. For the 1x1 image of the colour (10, 20, 30, 255), the value 0xFF1E140A on
  the little-endian host, in a buffer of exactly one pixel, the run scan reads
  \<^verbatim>\<open>px_data[1]\<close>, outside the buffer. Where that memory can be read and holds the same
  value, the entry emitted is (1, 2) and not (1, 1).
\<close>

theorem kif_encode_1x1_reads_past_buffer:
  "kif_encode (Some [0xFF1E140A]) (Some (image_header 1 1)) True = Inl ReadOutOfBounds \<and>
   kif_encode (Some [0xFF1E140A, 0xFF1E140A, 0]) (Some (image_header 1 1)) True =
     Inr (\<lparr>Magic = 0x6B696631, BPP = 4, Compressed = 0, palEntries = 2, Width = 1, Height = 1,
           RLEEntries = 1\<rparr>,
          [0x31, 0x66, 0x69, 0x6B, 4, 0, 2, 0, 1, 0, 1, 0, 1, 0, 0, 0,
           0, 0, 0, 0, 10, 20, 30, 255, 1, 2], 26)"
  by (simp add: encode_eval header_bytes_def palette_bytes_def rle_bytes_def bytes16_def bytes32_def)

text \<open>
  Where the pixel after the image can be read and differs, the 1x1 image encodes and
  decodes as the specification describes.
\<close>

lemma kif_encode_1x1_guarded:
  "kif_encode (Some [0xFF1E140A, 0]) (Some (image_header 1 1)) True =
     Inr (\<lparr>Magic = 0x6B696631, BPP = 4, Compressed = 0, palEntries = 2, Width = 1, Height = 1,
           RLEEntries = 1\<rparr>, file_1x1, 26) \<and>
   kif_decode all_granted (Some file_1x1) True 32 =
     Inr (\<lparr>Magic = 0x6B696631, BPP = 4, Compressed = 0, palEntries = 2, Width = 1, Height = 1,
           RLEEntries = 1\<rparr>, [10, 20, 30, 255]) \<and>
   bytes32 0xFF1E140A = [10, 20, 30, 255]"
  by (simp add: encode_eval header_bytes_def palette_bytes_def rle_bytes_def bytes16_def bytes32_def
      file_1x1_def decode_eval)

text \<open>
  C1, evaluated. A 3x1 image of one colour in a buffer of exactly three pixels makes the
  run scan read outside the buffer. In a buffer of five pixels whose fourth continues the
  colour, the output holds the single entry (1, 4). Decoding it at depth 32 writes past the
  12 bytes of the decoded block; decoding it at depth 24 returns four pixels, 12 bytes,
  where the image with its alpha bytes removed has 9.
\<close>

theorem kif_round_trip_run_past_image:
  "kif_encode (Some [7, 7, 7]) (Some (image_header 3 1)) True = Inl ReadOutOfBounds \<and>
   kif_encode (Some [7, 7, 7, 7, 8]) (Some (image_header 3 1)) True =
     Inr (\<lparr>Magic = 0x6B696631, BPP = 4, Compressed = 0, palEntries = 2, Width = 3, Height = 1,
           RLEEntries = 1\<rparr>,
          [0x31, 0x66, 0x69, 0x6B, 4, 0, 2, 0, 3, 0, 1, 0, 1, 0, 0, 0,
           0, 0, 0, 0, 7, 0, 0, 0, 1, 4], 26) \<and>
   kif_decode all_granted (Some [0x31, 0x66, 0x69, 0x6B, 4, 0, 2, 0, 3, 0, 1, 0, 1, 0, 0, 0,
           0, 0, 0, 0, 7, 0, 0, 0, 1, 4]) True 32 = Inl WriteOutOfBounds \<and>
   kif_decode all_granted (Some [0x31, 0x66, 0x69, 0x6B, 4, 0, 2, 0, 3, 0, 1, 0, 1, 0, 0, 0,
           0, 0, 0, 0, 7, 0, 0, 0, 1, 4]) True 24 =
     Inr (\<lparr>Magic = 0x6B696631, BPP = 4, Compressed = 0, palEntries = 2, Width = 3, Height = 1,
           RLEEntries = 1\<rparr>, [7, 0, 0, 7, 0, 0, 7, 0, 0, 7, 0, 0]) \<and>
   concat (map bytes32 (take 3 [7, 7, 7, 7, 8])) = [7, 0, 0, 0, 7, 0, 0, 0, 7, 0, 0, 0]"
  by (simp add: encode_eval header_bytes_def palette_bytes_def rle_bytes_def bytes16_def bytes32_def
      decode_eval)

theorem kif_round_trip_run_past_image_witness:
  "kif_decode all_granted (Some [0x31, 0x66, 0x69, 0x6B, 4, 0, 2, 0, 3, 0, 1, 0, 1, 0, 0, 0,
           0, 0, 0, 0, 7, 0, 0, 0, 1, 4]) True 24 \<noteq>
     Inr (\<lparr>Magic = 0x6B696631, BPP = 4, Compressed = 0, palEntries = 2, Width = 3, Height = 1,
           RLEEntries = 1\<rparr>, [7, 0, 0, 7, 0, 0, 7, 0, 0])"
  using kif_round_trip_run_past_image by simp

subsection \<open>Images in which no two neighbours are equal\<close>

lemma first_seen_distinct: "distinct xs \<Longrightarrow> first_seen xs = xs"
  by (induction xs) simp_all

lemma in_palette_from_notin: "c \<notin> set ps \<Longrightarrow> in_palette_from c ps idx = - 1"
  by (induction ps arbitrary: idx) auto

lemma in_palette_from_nth:
  "distinct ps \<Longrightarrow> j < length ps \<Longrightarrow> in_palette_from (ps ! j) ps idx = idx + int j"
proof (induction ps arbitrary: j idx)
  case Nil
  then show ?case by simp
next
  case (Cons p ps)
  show ?case
  proof (cases j)
    case 0
    then show ?thesis by simp
  next
    case (Suc j')
    with Cons.prems have "ps ! j' \<in> set ps" and "p \<notin> set ps" by simp_all
    then have "p \<noteq> ps ! j'" by blast
    with Suc Cons.IH [of j' "idx + 1"] Cons.prems show ?thesis by simp
  qed
qed

lemma rle_step_single:
  assumes "k + 1 < length px" and "px ! (k + 1) \<noteq> px ! k" and "k < INT_MAX"
  shows "rle_step px pal k = Inr (RLE (word_of_int (in_palette (px ! k) pal)) 1, k + 1)"
proof -
  from assms have "run_scan px (px ! k) k 0 0 = run_scan px (px ! k) (k + 1) (0 + 1) (0 + 1)"
    by (intro run_scan_rec) simp_all
  also from assms have "\<dots> = Inr (k + 1, 1)"
    by (subst run_scan.simps) (simp add: rd_def)
  finally show ?thesis using assms by (simp add: rle_step_def rd_def)
qed

lemma rle_loop_single:
  assumes "n < length px" and "\<And>k. k < n \<Longrightarrow> px ! (k + 1) \<noteq> px ! k" and "n \<le> INT_MAX"
  shows "rle_loop px pal n i acc =
           Inr (acc @ map (\<lambda>k. RLE (word_of_int (in_palette (px ! k) pal)) 1) [i..<n])"
proof (induction "n - i" arbitrary: i acc)
  case 0
  then show ?case by (simp add: rle_loop_done)
next
  case (Suc d)
  then have lt: "i < n" and d: "d = n - (i + 1)" by simp_all
  let ?e = "RLE (word_of_int (in_palette (px ! i) pal)) 1"
  from lt assms have step: "rle_step px pal i = Inr (?e, i + 1)"
    by (intro rle_step_single) simp_all
  have "rle_loop px pal n i acc = rle_loop px pal n (i + 1) (acc @ [?e])"
    using lt step by (rule rle_loop_step)
  also have "\<dots> = Inr ((acc @ [?e]) @ map (\<lambda>k. RLE (word_of_int (in_palette (px ! k) pal)) 1) [i + 1..<n])"
    by (rule Suc.hyps(1) [OF d])
  also have "(acc @ [?e]) @ map (\<lambda>k. RLE (word_of_int (in_palette (px ! k) pal)) 1) [i + 1..<n] =
      acc @ map (\<lambda>k. RLE (word_of_int (in_palette (px ! k) pal)) 1) [i..<n]"
    using lt by (simp add: upt_conv_Cons)
  finally show ?case .
qed

subsection \<open>The ramp images\<close>

lemma unat_of_nat32: "v < 4294967296 \<Longrightarrow> unat (word_of_nat v :: 32 word) = v"
  by (simp add: unat_of_nat)

lemma of_nat32_eq_iff:
  "v < 4294967296 \<Longrightarrow> w < 4294967296 \<Longrightarrow> (word_of_nat v :: 32 word) = word_of_nat w \<longleftrightarrow> v = w"
  by (metis unat_of_nat32)

lemma distinct_ramp_palette: "n \<le> 4294967296 \<Longrightarrow> distinct (ramp_palette n)"
  unfolding ramp_palette_def
  by (rule iffD2 [OF distinct_map]) (auto simp: inj_on_def of_nat32_eq_iff)

lemma length_ramp [simp]: "length (ramp n) = n"
  by (simp add: ramp_def)

lemma length_ramp_palette [simp]: "length (ramp_palette n) = n"
  by (simp add: ramp_palette_def)

lemma length_ramp_entries [simp]: "length (ramp_entries n) = n"
  by (simp add: ramp_entries_def)

lemma nth_ramp: "k < n \<Longrightarrow> ramp n ! k = word_of_nat (k + 1)"
  by (simp add: ramp_def)

lemma nth_ramp_palette: "k < n \<Longrightarrow> ramp_palette n ! k = word_of_nat k"
  by (simp add: ramp_palette_def)

lemma take_ramp: "n \<le> m \<Longrightarrow> take n (ramp m) = ramp n"
  by (simp add: ramp_def take_map)

lemma ramp_palette_Suc: "0 # ramp n = ramp_palette (n + 1)"
proof -
  have "[0..<n + 1] = 0 # map Suc [0..<n]"
    by (simp add: upt_conv_Cons map_Suc_upt del: upt_Suc)
  then show ?thesis by (simp add: ramp_def ramp_palette_def comp_def del: upt_Suc)
qed

lemma take_ramp_palette: "n \<le> m \<Longrightarrow> take n (ramp_palette m) = ramp_palette n"
  by (simp add: ramp_palette_def take_map)

lemma mem_ramp_palette:
  "v < 4294967296 \<Longrightarrow> n \<le> 4294967296 \<Longrightarrow> word_of_nat v \<in> set (ramp_palette n) \<longleftrightarrow> v < n"
  by (auto simp: ramp_palette_def of_nat32_eq_iff)

lemma generate_palette_ramp:
  assumes "unat (Width h) * unat (Height h) = n" and "n \<le> m" and "n \<le> INT_MAX"
  shows "generate_palette (ramp m) h = Inr (ramp_palette (min 65536 (n + 1)))"
proof -
  from assms(3) have small: "n + 1 \<le> 4294967296" by (simp add: INT_MAX_def)
  have "filter (\<lambda>y. y \<notin> set [0]) xs = removeAll 0 xs" for xs :: "32 word list"
    by (induction xs) auto
  then have "spec_palette (ramp n) = take 65536 (first_seen (0 # ramp n))"
    using spec_fold_first_seen [of "[0]" "ramp n"] by (simp add: spec_palette_def)
  also have "first_seen (0 # ramp n) = ramp_palette (n + 1)"
    unfolding ramp_palette_Suc using small by (intro first_seen_distinct distinct_ramp_palette)
  also have "take 65536 (ramp_palette (n + 1)) = ramp_palette (min 65536 (n + 1))"
  proof (cases "65536 \<le> n + 1")
    case True
    then have "take 65536 (ramp_palette (n + 1)) = ramp_palette 65536" by (rule take_ramp_palette)
    with True show ?thesis by (simp only: min_def if_True)
  next
    case False
    then have "min 65536 (n + 1) = n + 1" by simp
    moreover from False have "take 65536 (ramp_palette (n + 1)) = ramp_palette (n + 1)"
      by (intro take_all) simp
    ultimately show ?thesis by (simp only:)
  qed
  finally show ?thesis using assms by (simp add: generate_palette_eq take_ramp)
qed

lemma in_palette_ramp:
  assumes "v < 4294967296" and "n \<le> 4294967296"
  shows "in_palette (word_of_nat v) (ramp_palette n) = (if v < n then int v else - 1)"
proof (cases "v < n")
  case True
  with assms in_palette_from_nth [OF distinct_ramp_palette [OF assms(2)], of v 0]
  show ?thesis by (simp add: in_palette_def nth_ramp_palette)
next
  case False
  with assms have "word_of_nat v \<notin> set (ramp_palette n)" by (simp add: mem_ramp_palette)
  with False show ?thesis by (simp add: in_palette_def in_palette_from_notin)
qed

lemma rle_loop_ramp:
  assumes "n < m" and "m < 4294967296" and "p \<le> 4294967296" and "n \<le> INT_MAX"
  shows "rle_loop (ramp m) (ramp_palette p) n 0 [] =
           Inr (map (\<lambda>k. RLE (if k + 1 < p then word_of_nat (k + 1) else 255) 1) [0..<n])"
proof -
  have neq: "ramp m ! (k + 1) \<noteq> ramp m ! k" if "k < n" for k
    using that assms by (simp add: nth_ramp of_nat32_eq_iff)
  have "rle_loop (ramp m) (ramp_palette p) n 0 [] =
      Inr ([] @ map (\<lambda>k. RLE (word_of_int (in_palette (ramp m ! k) (ramp_palette p))) 1) [0..<n])"
    using assms(1,4) neq by (intro rle_loop_single) simp_all
  also have "map (\<lambda>k. RLE (word_of_int (in_palette (ramp m ! k) (ramp_palette p))) 1) [0..<n] =
      map (\<lambda>k. RLE (if k + 1 < p then word_of_nat (k + 1) else 255) 1) [0..<n]"
  proof (rule map_cong [OF refl])
    fix k assume "k \<in> set [0..<n]"
    then have k: "k < n" by simp
    with assms(1) have nth: "ramp m ! k = word_of_nat (k + 1)" by (intro nth_ramp) simp
    from k assms have "in_palette (word_of_nat (k + 1)) (ramp_palette p) =
        (if k + 1 < p then int (k + 1) else - 1)"
      by (intro in_palette_ramp) simp_all
    with nth have "in_palette (ramp m ! k) (ramp_palette p) = (if k + 1 < p then int (k + 1) else - 1)"
      by (simp only:)
    then show "RLE (word_of_int (in_palette (ramp m ! k) (ramp_palette p))) 1 =
        RLE (if k + 1 < p then word_of_nat (k + 1) else 255) 1"
      by simp
  qed
  finally show ?thesis by simp
qed

lemma ramp_encoded:
  assumes "1 \<le> p"
  shows "map (\<lambda>k. RLE (if k + 1 < p then word_of_nat (k + 1) else 255) 1) [0..<n] =
           ramp_entries (min n (p - 1)) @ replicate (n - (p - 1)) (RLE 255 1)"
proof -
  let ?f = "\<lambda>k. RLE (if k + 1 < p then word_of_nat (k + 1) else 255) 1"
  let ?q = "min n (p - 1)"
  have "[0..<n] = [0..<?q] @ [?q..<n]"
    using upt_add_eq_append [of 0 ?q "n - ?q"] by simp
  then have "map ?f [0..<n] = map ?f [0..<?q] @ map ?f [?q..<n]"
    by (metis map_append)
  moreover have "map ?f [0..<?q] = ramp_entries ?q"
    unfolding ramp_entries_def using assms by (intro map_cong [OF refl]) auto
  moreover have "map ?f [?q..<n] = replicate (n - (p - 1)) (RLE 255 1)"
  proof -
    have "map ?f [?q..<n] = map (\<lambda>k. RLE 255 1) [?q..<n]"
      by (intro map_cong [OF refl]) auto
    also have "\<dots> = replicate (length [?q..<n]) (RLE 255 1)" by (rule map_replicate_const)
    also have "length [?q..<n] = n - (p - 1)" by auto
    finally show ?thesis .
  qed
  ultimately show ?thesis by simp
qed

lemma kif_encode_result:
  assumes "generate_palette px h = Inr P"
    and "rle_loop px P (unat (Width h) * unat (Height h)) 0 [] = Inr E"
    and "16 + 4 * length P + length E * 2 \<le> INT_MAX"
  shows "kif_encode (Some px) (Some h) True =
           Inr (h\<lparr>palEntries := word_of_nat (length P), Magic := 0x6B696631, BPP := 4,
                   Compressed := 0, RLEEntries := word_of_nat (length E)\<rparr>,
                header_bytes (h\<lparr>palEntries := word_of_nat (length P), Magic := 0x6B696631,
                   BPP := 4, Compressed := 0, RLEEntries := word_of_nat (length E)\<rparr>)
                  @ palette_bytes P @ rle_bytes E,
                int (16 + 4 * length P + length E * 2))"
  using assms by (simp add: kif_encode_eq)

lemma uint16_65536: "(65536 :: 16 word) = 0"
  by transfer simp

text \<open>
  C4, evaluated. The 256x256 image whose pixel \<open>k\<close> has the value \<open>k + 1\<close> (in a buffer with
  one more pixel, which ends the last run scan) fills the palette with the values 0 to
  65535. The colour 65536 of the last pixel is dropped, \<^verbatim>\<open>_in_palette\<close> returns -1 for it,
  and the index byte of its entry is 255, not 0.
\<close>

theorem kif_encode_dropped_colour_index:
  "kif_encode (Some (ramp 65537)) (Some (image_header 256 256)) True =
     Inr (\<lparr>Magic = 0x6B696631, BPP = 4, Compressed = 0, palEntries = 0, Width = 256,
            Height = 256, RLEEntries = 65536\<rparr>,
          header_bytes \<lparr>Magic = 0x6B696631, BPP = 4, Compressed = 0, palEntries = 0, Width = 256,
            Height = 256, RLEEntries = 65536\<rparr>
            @ palette_bytes (ramp_palette 65536) @ rle_bytes (ramp_entries 65535 @ [RLE 255 1]),
          393232) \<and>
   ramp 65537 ! 65535 = 65536 \<and>
   65536 \<notin> set (ramp_palette 65536) \<and>
   in_palette 65536 (ramp_palette 65536) = - 1"
proof -
  let ?h = "image_header 256 256"
  have n: "unat (Width ?h) * unat (Height ?h) = 65536" by (simp add: image_header_def)
  have pal: "generate_palette (ramp 65537) ?h = Inr (ramp_palette 65536)"
    using generate_palette_ramp [OF n, of 65537] by (simp add: INT_MAX_def)
  have "rle_loop (ramp 65537) (ramp_palette 65536) 65536 0 [] =
      Inr (map (\<lambda>k. RLE (if k + 1 < 65536 then word_of_nat (k + 1) else 255) 1) [0..<65536])"
    by (rule rle_loop_ramp) (simp_all add: INT_MAX_def)
  also have "map (\<lambda>k. RLE (if k + 1 < 65536 then word_of_nat (k + 1) else 255) 1) [0..<65536] =
      ramp_entries 65535 @ [RLE 255 1]"
    using ramp_encoded [of 65536 65536] by simp
  finally have enc: "rle_loop (ramp 65537) (ramp_palette 65536) (unat (Width ?h) * unat (Height ?h)) 0 [] =
      Inr (ramp_entries 65535 @ [RLE 255 1])"
    by (simp only: n)
  have "kif_encode (Some (ramp 65537)) (Some ?h) True =
     Inr (\<lparr>Magic = 0x6B696631, BPP = 4, Compressed = 0, palEntries = 0, Width = 256,
            Height = 256, RLEEntries = 65536\<rparr>,
          header_bytes \<lparr>Magic = 0x6B696631, BPP = 4, Compressed = 0, palEntries = 0, Width = 256,
            Height = 256, RLEEntries = 65536\<rparr>
            @ palette_bytes (ramp_palette 65536) @ rle_bytes (ramp_entries 65535 @ [RLE 255 1]),
          393232)"
    using kif_encode_result [OF pal enc] by (simp add: INT_MAX_def image_header_def uint16_65536)
  moreover have "ramp 65537 ! 65535 = 65536"
    using nth_ramp [of 65535 65537] by simp
  moreover have notin: "(65536 :: 32 word) \<notin> set (ramp_palette 65536)"
    using mem_ramp_palette [of 65536 65536] by simp
  moreover have "in_palette 65536 (ramp_palette 65536) = - 1"
    using notin by (simp add: in_palette_def in_palette_from_notin)
  ultimately show ?thesis by (simp only: simp_thms)
qed

text \<open>
  C6, evaluated. The 65535x1 image whose pixel \<open>k\<close> has the value \<open>k + 1\<close> has 65535
  colours, none of them 0, so the palette has 65536 entries with the reserved one. The
  16-bit field \<^verbatim>\<open>palEntries\<close> of the header then holds 0, while the output carries the
  262144 bytes of the 65536 palette entries and its length is 393230.
\<close>

theorem kif_encode_palette_count_wraps:
  "kif_encode (Some (ramp 65536)) (Some (image_header 65535 1)) True =
     Inr (\<lparr>Magic = 0x6B696631, BPP = 4, Compressed = 0, palEntries = 0, Width = 65535,
            Height = 1, RLEEntries = 65535\<rparr>,
          header_bytes \<lparr>Magic = 0x6B696631, BPP = 4, Compressed = 0, palEntries = 0, Width = 65535,
            Height = 1, RLEEntries = 65535\<rparr>
            @ palette_bytes (ramp_palette 65536) @ rle_bytes (ramp_entries 65535),
          393230) \<and>
   length (ramp_palette 65536) = 65536 \<and>
   length (palette_bytes (ramp_palette 65536)) = 262144 \<and>
   length (rle_bytes (ramp_entries 65535)) = 131070"
proof -
  let ?h = "image_header 65535 1"
  have n: "unat (Width ?h) * unat (Height ?h) = 65535" by (simp add: image_header_def)
  have pal: "generate_palette (ramp 65536) ?h = Inr (ramp_palette 65536)"
    using generate_palette_ramp [OF n, of 65536] by (simp add: INT_MAX_def)
  have "rle_loop (ramp 65536) (ramp_palette 65536) 65535 0 [] =
      Inr (map (\<lambda>k. RLE (if k + 1 < 65536 then word_of_nat (k + 1) else 255) 1) [0..<65535])"
    by (rule rle_loop_ramp) (simp_all add: INT_MAX_def)
  also have "map (\<lambda>k. RLE (if k + 1 < 65536 then word_of_nat (k + 1) else 255) 1) [0..<65535] =
      ramp_entries 65535"
    using ramp_encoded [of 65536 65535] by simp
  finally have enc: "rle_loop (ramp 65536) (ramp_palette 65536) (unat (Width ?h) * unat (Height ?h)) 0 [] =
      Inr (ramp_entries 65535)"
    by (simp only: n)
  have "kif_encode (Some (ramp 65536)) (Some ?h) True =
     Inr (\<lparr>Magic = 0x6B696631, BPP = 4, Compressed = 0, palEntries = 0, Width = 65535,
            Height = 1, RLEEntries = 65535\<rparr>,
          header_bytes \<lparr>Magic = 0x6B696631, BPP = 4, Compressed = 0, palEntries = 0, Width = 65535,
            Height = 1, RLEEntries = 65535\<rparr>
            @ palette_bytes (ramp_palette 65536) @ rle_bytes (ramp_entries 65535),
          393230)"
    using kif_encode_result [OF pal enc] by (simp add: INT_MAX_def image_header_def uint16_65536)
  then show ?thesis by simp
qed

section \<open>Decoding the output of the encoder\<close>

subsection \<open>The bytes of the output read back\<close>

lemma le32_bytes32:
  "le32 (ucast w) (ucast (drop_bit 8 w)) (ucast (drop_bit 16 w)) (ucast (drop_bit 24 w)) = (w :: 32 word)"
  unfolding le32_def
proof (rule bit_word_eqI)
  fix n assume "n < LENGTH(32)"
  consider "n < 8" | "8 \<le> n" "n < 16" | "16 \<le> n" "n < 24" | "24 \<le> n" by linarith
  then show "bit (push_bit 24 (ucast (ucast (drop_bit 24 w) :: 8 word)) OR
      push_bit 16 (ucast (ucast (drop_bit 16 w) :: 8 word)) OR
      push_bit 8 (ucast (ucast (drop_bit 8 w) :: 8 word)) OR ucast (ucast w :: 8 word) :: 32 word) n = bit w n"
    using \<open>n < LENGTH(32)\<close> by cases (auto simp: bit_simps)
qed

lemma le16_bytes16:
  "le16 (ucast w) (ucast (drop_bit 8 w)) = (w :: 16 word)"
  unfolding le16_def
proof (rule bit_word_eqI)
  fix n assume "n < LENGTH(16)"
  consider "n < 8" | "8 \<le> n" by linarith
  then show "bit (push_bit 8 (ucast (ucast (drop_bit 8 w) :: 8 word)) OR ucast (ucast w :: 8 word) :: 16 word) n = bit w n"
    using \<open>n < LENGTH(16)\<close> by cases (auto simp: bit_simps)
qed

lemma read_header_header_bytes: "read_header (header_bytes h @ rest) = Inr h"
  by (simp add: read_header_eq header_bytes_def bytes32_def bytes16_def le32_bytes32 le16_bytes16)

lemma palette_bytes_Cons: "palette_bytes (p # ps) = bytes32 p @ palette_bytes ps"
  by (simp add: palette_bytes_def)

lemma rle_bytes_Cons: "rle_bytes (e # es) = [pID e, rle e] @ rle_bytes es"
  by (simp add: rle_bytes_def)

lemma palette_bytes_nth:
  "i < length P \<Longrightarrow> k < 4 \<Longrightarrow> palette_bytes P ! (i * 4 + k) = bytes32 (P ! i) ! k"
proof (induction P arbitrary: i)
  case Nil
  then show ?case by simp
next
  case (Cons p ps)
  show ?case
  proof (cases i)
    case 0
    with Cons.prems show ?thesis by (simp add: palette_bytes_Cons nth_append)
  next
    case (Suc j)
    with Cons.prems have "palette_bytes ps ! (j * 4 + k) = bytes32 (ps ! j) ! k"
      by (intro Cons.IH) simp_all
    moreover have "(bytes32 p @ palette_bytes ps) ! (Suc j * 4 + k) = palette_bytes ps ! (j * 4 + k)"
      by (simp add: nth_append)
    ultimately show ?thesis using Suc by (simp add: palette_bytes_Cons)
  qed
qed

lemma rle_bytes_nth:
  "i < length E \<Longrightarrow> rle_bytes E ! (i * 2) = pID (E ! i) \<and> rle_bytes E ! (i * 2 + 1) = rle (E ! i)"
proof (induction E arbitrary: i)
  case Nil
  then show ?case by simp
next
  case (Cons e es)
  show ?case
  proof (cases i)
    case 0
    then show ?thesis by (simp add: rle_bytes_Cons)
  next
    case (Suc j)
    with Cons.prems have "rle_bytes es ! (j * 2) = pID (es ! j) \<and> rle_bytes es ! (j * 2 + 1) = rle (es ! j)"
      by (intro Cons.IH) simp
    with Suc show ?thesis by (simp add: rle_bytes_Cons)
  qed
qed

lemma file_palette_output:
  assumes "length hb = 16"
  shows "file_palette (hb @ palette_bytes P @ rest) (length P) = map rgba_of P"
proof -
  have at: "(hb @ palette_bytes P @ rest) ! (16 + i * 4 + k) = bytes32 (P ! i) ! k"
    if "i < length P" "k < 4" for i k
  proof -
    from that have "i * 4 + k < length (palette_bytes P)" by simp
    then have "(hb @ palette_bytes P @ rest) ! (16 + (i * 4 + k)) = palette_bytes P ! (i * 4 + k)"
      using assms by (simp add: nth_append)
    also from that have "palette_bytes P ! (i * 4 + k) = bytes32 (P ! i) ! k"
      by (rule palette_bytes_nth)
    finally show ?thesis by (simp only: add.assoc)
  qed
  have "file_palette (hb @ palette_bytes P @ rest) (length P) = map (\<lambda>i. rgba_of (P ! i)) [0..<length P]"
    unfolding file_palette_def
  proof (rule map_cong [OF refl])
    fix i assume "i \<in> set [0..<length P]"
    then have i: "i < length P" by simp
    from at [OF i, of 0] at [OF i, of 1] at [OF i, of 2] at [OF i, of 3]
    show "RGBA ((hb @ palette_bytes P @ rest) ! (16 + i * 4))
        ((hb @ palette_bytes P @ rest) ! (16 + i * 4 + 1))
        ((hb @ palette_bytes P @ rest) ! (16 + i * 4 + 2))
        ((hb @ palette_bytes P @ rest) ! (16 + i * 4 + 3)) = rgba_of (P ! i)"
      by (simp add: rgba_of_def bytes32_def)
  qed
  also have "\<dots> = map rgba_of (map (\<lambda>i. P ! i) [0..<length P])"
    by (simp add: comp_def del: map_nth)
  also have "\<dots> = map rgba_of P" by (simp only: map_nth)
  finally show ?thesis .
qed

lemma file_entries_output:
  assumes "length pre = base"
  shows "file_entries (pre @ rle_bytes E) base (length E) = E"
proof -
  have "file_entries (pre @ rle_bytes E) base (length E) = map (\<lambda>i. E ! i) [0..<length E]"
    unfolding file_entries_def
  proof (rule map_cong [OF refl])
    fix i assume "i \<in> set [0..<length E]"
    then have i: "i < length E" by simp
    from assms have "(pre @ rle_bytes E) ! (base + i * 2) = rle_bytes E ! (i * 2)"
      and "(pre @ rle_bytes E) ! (base + i * 2 + 1) = rle_bytes E ! (i * 2 + 1)"
      by (simp_all add: nth_append)
    with rle_bytes_nth [OF i]
    show "RLE ((pre @ rle_bytes E) ! (base + i * 2)) ((pre @ rle_bytes E) ! (base + i * 2 + 1)) = E ! i"
      by simp
  qed
  then show ?thesis by (simp add: map_nth)
qed

subsection \<open>The pixels the entries stand for\<close>

lemma spec_fold_length: "length pal \<le> length (foldl spec_palette_step pal xs)"
  using spec_fold_prefix [of pal xs] by auto

lemma spec_fold_complete:
  "length (foldl spec_palette_step pal xs) < 65536 \<Longrightarrow>
     set pal \<union> set xs \<subseteq> set (foldl spec_palette_step pal xs)"
proof (induction xs arbitrary: pal)
  case Nil
  show ?case by simp
next
  case (Cons x xs)
  let ?pal' = "spec_palette_step pal x"
  from Cons.prems have len: "length (foldl spec_palette_step ?pal' xs) < 65536" by simp
  from Cons.IH [OF len] have ih: "set ?pal' \<union> set xs \<subseteq> set (foldl spec_palette_step ?pal' xs)" .
  from spec_fold_length [of ?pal' xs] len have "length ?pal' < 65536" by simp
  moreover have "length pal \<le> length ?pal'" by (simp add: spec_palette_step_def)
  ultimately have "length pal < 65536" by simp
  then have "set pal \<union> {x} \<subseteq> set ?pal'" by (auto simp: spec_palette_step_def)
  with ih show ?case by auto
qed

lemma in_palette_from_mem:
  "c \<in> set ps \<Longrightarrow> \<exists>j<length ps. in_palette_from c ps idx = idx + int j \<and> ps ! j = c"
proof (induction ps arbitrary: idx)
  case Nil
  then show ?case by simp
next
  case (Cons p ps)
  show ?case
  proof (cases "p = c")
    case True
    then have "in_palette_from c (p # ps) idx = idx + int 0 \<and> (p # ps) ! 0 = c" by simp
    then show ?thesis by blast
  next
    case False
    with Cons.prems have "c \<in> set ps" by simp
    from Cons.IH [OF this, of "idx + 1"] obtain j where j: "j < length ps"
      "in_palette_from c ps (idx + 1) = idx + 1 + int j" "ps ! j = c" by blast
    with False have "Suc j < length (p # ps) \<and>
        in_palette_from c (p # ps) idx = idx + int (Suc j) \<and> (p # ps) ! Suc j = c" by simp
    then show ?thesis by blast
  qed
qed

lemma in_palette_index:
  assumes "c \<in> set P" and "length P \<le> 256"
  shows "unat (word_of_int (in_palette c P) :: 8 word) < length P \<and>
         P ! unat (word_of_int (in_palette c P) :: 8 word) = c"
proof -
  from in_palette_from_mem [OF assms(1), of 0] obtain j where j: "j < length P"
    "in_palette c P = int j" "P ! j = c" by (auto simp: in_palette_def)
  with assms(2) have "unat (word_of_nat j :: 8 word) = j" by (simp add: unat_of_nat)
  with j show ?thesis by simp
qed

lemma take_drop_constant:
  assumes "i \<le> i'" and "i' \<le> length px" and "\<And>k. i \<le> k \<Longrightarrow> k < i' \<Longrightarrow> px ! k = c"
  shows "take (i' - i) (drop i px) = replicate (i' - i) c"
proof (rule nth_equalityI)
  from assms show "length (take (i' - i) (drop i px)) = length (replicate (i' - i) c)" by simp
next
  fix k assume "k < length (take (i' - i) (drop i px))"
  then have k: "k < i' - i" by simp
  with assms(1,2) have "take (i' - i) (drop i px) ! k = px ! (i + k)" by simp
  also from k have "\<dots> = c" by (intro assms(3)) simp_all
  finally show "take (i' - i) (drop i px) ! k = replicate (i' - i) c ! k" using k by simp
qed

lemma unrle_Cons:
  "unrle P (e # es) = replicate (unat (rle e)) (P ! unat (pID e)) @ unrle P es"
  by (simp add: unrle_def)

lemma rle_step_bound:
  assumes "rle_step px pal i = Inr (e, i')"
  shows "i' \<le> length px"
proof -
  from rle_step_Inr(2) [OF assms] have "i' - 1 < i'" "i \<le> i' - 1" by simp_all
  from rle_step_Inr(6) [OF assms this(2,1)] have "i' - 1 < length px" by (rule conjunct1)
  with \<open>i' - 1 < i'\<close> show ?thesis by arith
qed

lemma rle_loop_pixels:
  "rle_loop px P n i acc = Inr ents \<Longrightarrow>
     \<exists>new. ents = acc @ new \<and> (i < n \<longrightarrow> n \<le> i + run_total new) \<and>
       (length P \<le> 256 \<longrightarrow> (\<forall>k. i \<le> k \<and> k < i + run_total new \<longrightarrow> px ! k \<in> set P) \<longrightarrow>
          unrle P new = take (run_total new) (drop i px) \<and>
          list_all (\<lambda>e. unat (pID e) < length P) new)"
proof (induction px P n i acc rule: rle_loop.induct)
  case (1 px P n i acc)
  show ?case
  proof (cases "i < n")
    case False
    with "1.prems" have "ents = acc @ []" by (simp add: rle_loop_done)
    with False show ?thesis by (intro exI [of _ "[]"]) (simp add: unrle_def)
  next
    case True
    show ?thesis
    proof (cases "rle_step px P i")
      case (Inl err)
      with True "1.prems" show ?thesis by (simp add: rle_loop_fail)
    next
      case (Inr r)
      obtain e i' where r: "r = (e, i')" by (cases r)
      with Inr have step: "rle_step px P i = Inr (e, i')" by simp
      with True "1.prems" have rec: "rle_loop px P n i' (acc @ [e]) = Inr ents"
        by (simp add: rle_loop_step)
      from "1.IH" [OF True step refl rec] obtain new where new: "ents = (acc @ [e]) @ new"
        and pos: "i' < n \<longrightarrow> n \<le> i' + run_total new"
        and content: "length P \<le> 256 \<longrightarrow> (\<forall>k. i' \<le> k \<and> k < i' + run_total new \<longrightarrow> px ! k \<in> set P) \<longrightarrow>
          unrle P new = take (run_total new) (drop i' px) \<and>
          list_all (\<lambda>e. unat (pID e) < length P) new"
        by blast
      note s = rle_step_Inr [OF step]
      from s(2,4) have run: "unat (rle e) = i' - i" and i': "i' = i + unat (rle e)" by simp_all
      have total: "run_total (e # new) = (i' - i) + run_total new" by (simp add: run)
      have ents: "ents = acc @ (e # new)" using new by simp
      have pos': "i < n \<longrightarrow> n \<le> i + run_total (e # new)"
      proof
        assume "i < n"
        from pos s(2) total show "n \<le> i + run_total (e # new)"
          by (cases "i' < n") simp_all
      qed
      have content': "length P \<le> 256 \<longrightarrow>
          (\<forall>k. i \<le> k \<and> k < i + run_total (e # new) \<longrightarrow> px ! k \<in> set P) \<longrightarrow>
          unrle P (e # new) = take (run_total (e # new)) (drop i px) \<and>
          list_all (\<lambda>e. unat (pID e) < length P) (e # new)"
      proof (intro impI)
        assume small: "length P \<le> 256"
          and mem: "\<forall>k. i \<le> k \<and> k < i + run_total (e # new) \<longrightarrow> px ! k \<in> set P"
        from mem s(2) total have "px ! i \<in> set P" by simp
        from in_palette_index [OF this small] s(5)
        have idx: "unat (pID e) < length P" and col: "P ! unat (pID e) = px ! i" by simp_all
        have "\<forall>k. i' \<le> k \<and> k < i' + run_total new \<longrightarrow> px ! k \<in> set P"
        proof (intro allI impI)
          fix k assume "i' \<le> k \<and> k < i' + run_total new"
          with s(2) total have "i \<le> k \<and> k < i + run_total (e # new)" by simp
          with mem show "px ! k \<in> set P" by blast
        qed
        with content small have c: "unrle P new = take (run_total new) (drop i' px)"
          and l: "list_all (\<lambda>e. unat (pID e) < length P) new" by simp_all
        have le: "i \<le> i'" using s(2) by simp
        have bound: "i' \<le> length px" by (rule rle_step_bound [OF step])
        have const: "px ! k = px ! i" if "i \<le> k" "k < i'" for k
          using s(6) [OF that] by (rule conjunct2)
        have run1: "take (i' - i) (drop i px) = replicate (i' - i) (px ! i)"
          using le bound const by (rule take_drop_constant)
        have "take ((i' - i) + run_total new) (drop i px) =
            take (i' - i) (drop i px) @ take (run_total new) (drop ((i' - i) + i) px)"
          by (simp only: take_add drop_drop)
        also from le have "(i' - i) + i = i'" by simp
        finally have "take (run_total (e # new)) (drop i px) =
            replicate (i' - i) (px ! i) @ unrle P new"
          by (simp only: total run1 c)
        moreover have "unrle P (e # new) = replicate (i' - i) (px ! i) @ unrle P new"
          by (simp only: unrle_Cons run col)
        ultimately have "unrle P (e # new) = take (run_total (e # new)) (drop i px)" by simp
        moreover from idx l have "list_all (\<lambda>e. unat (pID e) < length P) (e # new)" by simp
        ultimately show "unrle P (e # new) = take (run_total (e # new)) (drop i px) \<and>
          list_all (\<lambda>e. unat (pID e) < length P) (e # new)" by (rule conjI)
      qed
      show ?thesis
        by (intro exI [of _ "e # new"] conjI) (rule ents, rule pos', rule content')
    qed
  qed
qed

lemma pixel_out_rgba_of:
  "pixel_out bpp (rgba_of w) = (if bpp = 32 then bytes32 w else take 3 (bytes32 w))"
  by (simp add: pixel_out_def rgba_of_def bytes32_def)

lemma expand_unrle:
  "list_all (\<lambda>e. unat (pID e) < length P) E \<Longrightarrow>
     expand (map rgba_of P) bpp E =
       concat (map (\<lambda>w. if bpp = 32 then bytes32 w else take 3 (bytes32 w)) (unrle P E))"
proof (induction E)
  case Nil
  show ?case by (simp add: expand_def unrle_def)
next
  case (Cons e es)
  then have idx: "unat (pID e) < length P" and rest: "list_all (\<lambda>e. unat (pID e) < length P) es"
    by simp_all
  from idx have "pixel_out bpp (map rgba_of P ! unat (pID e)) =
      (if bpp = 32 then bytes32 (P ! unat (pID e)) else take 3 (bytes32 (P ! unat (pID e))))"
    by (simp add: pixel_out_rgba_of)
  with Cons.IH [OF rest] show ?case
    by (simp add: expand_Cons unrle_Cons map_replicate)
qed

lemma generate_palette_Inr:
  assumes "generate_palette px h = Inr P"
  shows "unat (Width h) * unat (Height h) \<le> length px"
    and "unat (Width h) * unat (Height h) \<le> INT_MAX"
    and "P = spec_palette (take (unat (Width h) * unat (Height h)) px)"
  using assms by (auto simp: generate_palette_eq Let_def split: if_splits)

text \<open>
  Decoding what the encoder returned gives back the pixels of the image, with or without
  their alpha bytes, whenever the palette has at most 256 entries and the run lengths sum
  to \<open>Width * Height\<close>, that is, whenever no run scan went on behind the image.
\<close>

lemma kif_round_trip_guarded:
  assumes P: "generate_palette px h = Inr P"
    and E: "rle_loop px P (unat (Width h) * unat (Height h)) 0 [] = Inr E"
    and guard: "run_total E = unat (Width h) * unat (Height h)"
    and small: "length P \<le> 256"
    and cap: "unat (Width h) * unat (Height h) * 4 \<le> INT_MAX"
    and bpp: "bpp = 24 \<or> bpp = 32"
  shows "\<exists>h' out len. kif_encode (Some px) (Some h) True = Inr (h', out, len) \<and>
           kif_decode all_granted (Some out) True bpp =
             Inr (h', concat (map (\<lambda>w. if bpp = 32 then bytes32 w else take 3 (bytes32 w))
                               (take (unat (Width h) * unat (Height h)) px)))"
proof -
  let ?n = "unat (Width h) * unat (Height h)"
  let ?h' = "h\<lparr>palEntries := word_of_nat (length P), Magic := 0x6B696631, BPP := 4,
                Compressed := 0, RLEEntries := word_of_nat (length E)\<rparr>"
  let ?out = "header_bytes ?h' @ palette_bytes P @ rle_bytes E"
  note g = generate_palette_Inr [OF P]
  from rle_loop_Inr [OF E] have lenE: "length E \<le> ?n"
    and runs: "\<forall>e \<in> set E. 1 \<le> unat (rle e) \<and> unat (rle e) \<le> 255" by auto
  from lenE small cap have size: "16 + 4 * length P + length E * 2 \<le> INT_MAX"
    by (simp add: INT_MAX_def)
  have enc: "kif_encode (Some px) (Some h) True = Inr (?h', ?out, int (16 + 4 * length P + length E * 2))"
    using kif_encode_result [OF P E size] .
  have pe': "unat (word_of_nat (length P) :: 16 word) = length P"
    using small by (simp add: unat_of_nat)
  have re': "unat (word_of_nat (length E) :: 32 word) = length E"
    using size by (simp add: unat_of_nat INT_MAX_def)
  have pe: "unat (palEntries ?h') = length P" using pe' by simp
  have re: "unat (RLEEntries ?h') = length E" using re' by simp
  have hdr: "read_header ?out = Inr ?h'" by (rule read_header_header_bytes)
  have fp: "file_palette ?out (length P) = map rgba_of P"
    by (rule file_palette_output) simp
  have "file_entries ((header_bytes ?h' @ palette_bytes P) @ rle_bytes E) (16 + length P * 4) (length E) = E"
    by (rule file_entries_output) simp
  then have fe: "file_entries ?out (16 + length P * 4) (length E) = E" by simp
  have mem: "\<forall>k. 0 \<le> k \<and> k < 0 + run_total E \<longrightarrow> px ! k \<in> set P"
  proof (intro allI impI)
    fix k assume "0 \<le> k \<and> k < 0 + run_total E"
    with guard have k: "k < ?n" by simp
    with g(1) have "px ! k \<in> set (take ?n px)" by (simp add: in_set_conv_nth) (metis g(1) k min.absorb2 nth_take)
    moreover from small g(3) have "length (foldl spec_palette_step [0] (take ?n px)) < 65536"
      by (simp add: spec_palette_def)
    from spec_fold_complete [OF this] g(3) have "set (take ?n px) \<subseteq> set P"
      by (simp add: spec_palette_def)
    ultimately show "px ! k \<in> set P" by blast
  qed
  from rle_loop_pixels [OF E] obtain new where new: "E = [] @ new"
    and content: "length P \<le> 256 \<longrightarrow> (\<forall>k. 0 \<le> k \<and> k < 0 + run_total new \<longrightarrow> px ! k \<in> set P) \<longrightarrow>
          unrle P new = take (run_total new) (drop 0 px) \<and>
          list_all (\<lambda>e. unat (pID e) < length P) new"
    by blast
  from new have "new = E" by simp
  with content small mem guard have pixels: "unrle P E = take ?n px"
    and idx: "list_all (\<lambda>e. unat (pID e) < length P) E" by simp_all
  have wf: "kif_well_formed ?out"
    unfolding kif_well_formed_def declared_size_def
    using cap guard idx runs fe by (simp add: hdr pe' re' Let_def list_all_iff)
  from kif_decode_well_formed [OF wf bpp hdr granted_all]
  have "kif_decode all_granted (Some ?out) True bpp = Inr (?h', expand (map rgba_of P) bpp E)"
    by (simp only: pe re fp fe)
  also have "expand (map rgba_of P) bpp E =
      concat (map (\<lambda>w. if bpp = 32 then bytes32 w else take 3 (bytes32 w)) (take ?n px))"
    using expand_unrle [OF idx] by (simp only: pixels)
  finally show ?thesis using enc by blast
qed

subsection \<open>A pixel behind the image that ends the last run\<close>

lemma run_scan_halt:
  "\<not> (cnt < 255 \<and> d ! i = c) \<Longrightarrow> i < length d \<Longrightarrow> run_scan d c i cnt rl = Inr (i, rl)"
  by (subst run_scan.simps) (auto simp: rd_def)

lemma run_scan_sentinel:
  assumes "n < length px" and "n \<le> INT_MAX" and "0 < n \<longrightarrow> px ! n \<noteq> px ! (n - 1)"
  shows "i \<le> n \<Longrightarrow> (i = n \<longrightarrow> px ! n \<noteq> c) \<Longrightarrow>
           \<exists>i' rl'. run_scan px c i cnt rl = Inr (i', rl') \<and> i' \<le> n"
proof (induction "255 - cnt" arbitrary: i cnt rl)
  case 0
  then have "\<not> (cnt < 255 \<and> px ! i = c)" by simp
  with 0 assms(1) have "run_scan px c i cnt rl = Inr (i, rl)" by (intro run_scan_halt) simp_all
  with 0 show ?case by simp
next
  case (Suc d)
  from Suc.prems assms(1) have inb: "i < length px" by simp
  show ?case
  proof (cases "px ! i = c")
    case False
    with inb have "run_scan px c i cnt rl = Inr (i, rl)" by (intro run_scan_halt) simp_all
    with Suc.prems show ?thesis by simp
  next
    case True
    with Suc.prems have "i \<noteq> n" by auto
    with Suc.prems have lt: "i < n" by simp
    from Suc.hyps(2) have cnt: "cnt < 255" and d: "d = 255 - (cnt + 1)" by simp_all
    from lt assms(2) have small: "i < INT_MAX" by simp
    have inv: "i + 1 = n \<longrightarrow> px ! n \<noteq> c"
    proof
      assume "i + 1 = n"
      then have "n - 1 = i" "0 < n" by simp_all
      with assms(3) True show "px ! n \<noteq> c" by simp
    qed
    from lt have "i + 1 \<le> n" by simp
    from Suc.hyps(1) [OF d this inv] obtain i' rl' where
      "run_scan px c (i + 1) (cnt + 1) (rl + 1) = Inr (i', rl')" "i' \<le> n" by blast
    with run_scan_rec [OF cnt inb True small, of rl] show ?thesis by simp
  qed
qed

lemma rle_step_sentinel:
  assumes "n < length px" and "n \<le> INT_MAX" and "0 < n \<longrightarrow> px ! n \<noteq> px ! (n - 1)" and "i < n"
  shows "\<exists>e i'. rle_step px P i = Inr (e, i') \<and> i' \<le> n"
proof -
  from assms have "i \<le> n" "i = n \<longrightarrow> px ! n \<noteq> px ! i" by simp_all
  from run_scan_sentinel [OF assms(1-3) this, of 0 0] obtain j rl where
    j: "run_scan px (px ! i) i 0 0 = Inr (j, rl)" "j \<le> n" by blast
  from run_scan_arith [OF j(1)] have "i \<le> j" by auto
  from assms have inb: "i < length px" by simp
  from run_scan_Inr_rec [OF _ j(1)] inb have "run_scan px (px ! i) (i + 1) (0 + 1) (0 + 1) = Inr (j, rl)"
    by simp
  from run_scan_arith [OF this] have "0 < j" by auto
  with j inb show ?thesis by (simp add: rle_step_def rd_def)
qed

lemma rle_loop_sentinel:
  assumes "n < length px" and "n \<le> INT_MAX" and "0 < n \<longrightarrow> px ! n \<noteq> px ! (n - 1)"
  shows "i \<le> n \<Longrightarrow> \<exists>new. rle_loop px P n i acc = Inr (acc @ new) \<and> i + run_total new = n"
proof (induction "n - i" arbitrary: i acc rule: less_induct)
  case less
  show ?case
  proof (cases "i < n")
    case False
    with less.prems have "i = n" by simp
    then have "rle_loop px P n i acc = Inr (acc @ [])" by (simp add: rle_loop_done)
    moreover from \<open>i = n\<close> have "i + run_total [] = n" by simp
    ultimately show ?thesis by blast
  next
    case True
    from rle_step_sentinel [OF assms True] obtain e i' where
      step: "rle_step px P i = Inr (e, i')" and le: "i' \<le> n" by blast
    note s = rle_step_Inr [OF step]
    from s(2) le have "n - i' < n - i" by simp
    from less.hyps [OF this le, of "acc @ [e]"] obtain new where
      rec: "rle_loop px P n i' (acc @ [e]) = Inr ((acc @ [e]) @ new)" and tot: "i' + run_total new = n"
      by blast
    from True step rec have "rle_loop px P n i acc = Inr (acc @ (e # new))"
      by (simp add: rle_loop_step)
    moreover from s(2,4) tot have "i + run_total (e # new) = n" by simp
    ultimately show ?thesis by blast
  qed
qed

subsection \<open>The number of palette entries\<close>

lemma set_first_seen [simp]: "set (first_seen xs) = set xs"
  by (induction xs rule: first_seen.induct) auto

lemma distinct_first_seen [simp]: "distinct (first_seen xs)"
  by (induction xs rule: first_seen.induct) simp_all

lemma length_first_seen: "length (first_seen xs) = card (set xs)"
  using distinct_card [of "first_seen xs"] by simp

lemma length_spec_palette:
  "length (spec_palette xs) = min 65536 (card (insert 0 (set xs)))"
proof -
  have "filter (\<lambda>y. y \<notin> set [0]) ys = removeAll 0 ys" for ys :: "32 word list"
    by (induction ys) auto
  then have "spec_palette xs = take 65536 (first_seen (0 # xs))"
    using spec_fold_first_seen [of "[0]" xs] by (simp add: spec_palette_def)
  then have "length (spec_palette xs) = min 65536 (length (first_seen (0 # xs)))"
    by (simp add: min.commute)
  then show ?thesis by (simp only: length_first_seen list.set)
qed

text \<open>
  The round trip of the specification holds for every image of at most 256 colours, the
  reserved entry counted, when the pixel behind the image can be read and differs from the
  last pixel of the image: then every run scan ends inside the image.
\<close>

lemma kif_round_trip_sentinel:
  assumes n: "unat (Width h) * unat (Height h) = n"
    and readable: "n < length px"
    and sentinel: "0 < n \<longrightarrow> px ! n \<noteq> px ! (n - 1)"
    and colours: "card (insert 0 (set (take n px))) \<le> 256"
    and cap: "n * 4 \<le> INT_MAX"
    and bpp: "bpp = 24 \<or> bpp = 32"
  shows "\<exists>h' out len. kif_encode (Some px) (Some h) True = Inr (h', out, len) \<and>
           kif_decode all_granted (Some out) True bpp =
             Inr (h', concat (map (\<lambda>w. if bpp = 32 then bytes32 w else take 3 (bytes32 w))
                               (take n px)))"
proof -
  from cap have small: "n \<le> INT_MAX" by simp
  let ?P = "spec_palette (take n px)"
  from n readable small have P: "generate_palette px h = Inr ?P"
    by (simp add: generate_palette_eq)
  from colours have lenP: "length ?P \<le> 256" by (simp add: length_spec_palette)
  from rle_loop_sentinel [OF readable small sentinel, of 0 ?P "[]"] obtain E where
    E: "rle_loop px ?P n 0 [] = Inr E" and total: "run_total E = n" by auto
  from kif_round_trip_guarded [OF P, of E bpp] E total lenP cap bpp n show ?thesis
    by simp
qed

subsection \<open>What a returned buffer holds\<close>

lemma kif_encode_Inr:
  assumes "kif_encode (Some px) (Some h) True = Inr (h', out, len)"
  obtains P E where "generate_palette px h = Inr P"
    and "rle_loop px P (unat (Width h) * unat (Height h)) 0 [] = Inr E"
    and "16 + 4 * length P + length E * 2 \<le> INT_MAX"
    and "h' = h\<lparr>palEntries := word_of_nat (length P), Magic := 0x6B696631, BPP := 4,
                   Compressed := 0, RLEEntries := word_of_nat (length E)\<rparr>"
    and "out = header_bytes h' @ palette_bytes P @ rle_bytes E"
    and "len = int (16 + 4 * length P + length E * 2)"
proof -
  let ?n = "unat (Width h) * unat (Height h)"
  from assms obtain P where pal: "generate_palette px h = Inr P"
    by (cases "generate_palette px h") (simp_all add: kif_encode_eq)
  with assms obtain E where enc: "rle_loop px P ?n 0 [] = Inr E"
    by (cases "rle_loop px P ?n 0 []") (simp_all add: kif_encode_eq)
  from assms pal enc have size: "16 + 4 * length P + length E * 2 \<le> INT_MAX"
    by (cases "16 + 4 * length P + length E * 2 > INT_MAX") (simp_all add: kif_encode_eq)
  with assms pal enc have "h' = h\<lparr>palEntries := word_of_nat (length P), Magic := 0x6B696631,
      BPP := 4, Compressed := 0, RLEEntries := word_of_nat (length E)\<rparr>"
    and "out = header_bytes h' @ palette_bytes P @ rle_bytes E"
    and "len = int (16 + 4 * length P + length E * 2)"
    by (auto simp: kif_encode_eq)
  with pal enc size show ?thesis by (rule that)
qed

text \<open>
  The header and the layout of every returned buffer. The count of palette entries is
  stored in 16 bits: it is the number of palette colours whenever that is below 65536.
\<close>

lemma kif_encode_layout:
  assumes "kif_encode (Some px) (Some h) True = Inr (h', out, len)"
  shows "\<exists>P E. generate_palette px h = Inr P \<and>
           rle_loop px P (unat (Width h) * unat (Height h)) 0 [] = Inr E \<and>
           Magic h' = 0x6B696631 \<and> BPP h' = 4 \<and> Compressed h' = 0 \<and>
           Width h' = Width h \<and> Height h' = Height h \<and>
           unat (palEntries h') = length P mod 65536 \<and>
           unat (RLEEntries h') = length E \<and>
           len = int (16 + 4 * length P + 2 * length E) \<and>
           length out = 16 + 4 * length P + 2 * length E \<and>
           out = header_bytes h' @ palette_bytes P @ rle_bytes E \<and>
           read_header out = Inr h'"
proof -
  from assms obtain P E where pal: "generate_palette px h = Inr P"
    and enc: "rle_loop px P (unat (Width h) * unat (Height h)) 0 [] = Inr E"
    and size: "16 + 4 * length P + length E * 2 \<le> INT_MAX"
    and h': "h' = h\<lparr>palEntries := word_of_nat (length P), Magic := 0x6B696631, BPP := 4,
                   Compressed := 0, RLEEntries := word_of_nat (length E)\<rparr>"
    and out: "out = header_bytes h' @ palette_bytes P @ rle_bytes E"
    and len: "len = int (16 + 4 * length P + length E * 2)"
    by (rule kif_encode_Inr)
  from size have "length E \<le> INT_MAX" by simp
  then have re: "unat (RLEEntries h') = length E" by (simp add: h' unat_of_nat32_id)
  have pe: "unat (palEntries h') = length P mod 65536" by (simp add: h' unat_of_nat)
  have hdr: "read_header out = Inr h'" unfolding out by (rule read_header_header_bytes)
  from pal enc re pe hdr len out show ?thesis
    by (intro exI [of _ P] exI [of _ E]) (simp add: h')
qed

text \<open>
  The run lengths of every returned buffer: each is between 1 and 255, and together they
  cover the image; they sum to \<open>Width * Height\<close> exactly when no run went on behind it.
\<close>

lemma kif_encode_run_lengths:
  assumes "kif_encode (Some px) (Some h) True = Inr (h', out, len)"
  shows "\<exists>P E. rle_loop px P (unat (Width h) * unat (Height h)) 0 [] = Inr E \<and>
           out = header_bytes h' @ palette_bytes P @ rle_bytes E \<and>
           (\<forall>e \<in> set E. 1 \<le> unat (rle e) \<and> unat (rle e) \<le> 255) \<and>
           unat (Width h) * unat (Height h) \<le> run_total E"
proof -
  let ?n = "unat (Width h) * unat (Height h)"
  from assms obtain P E where enc: "rle_loop px P ?n 0 [] = Inr E"
    and out: "out = header_bytes h' @ palette_bytes P @ rle_bytes E"
    by (rule kif_encode_Inr)
  from rle_loop_Inr [OF enc] have runs: "\<forall>e \<in> set E. 1 \<le> unat (rle e) \<and> unat (rle e) \<le> 255"
    by auto
  from rle_loop_pixels [OF enc] have "0 < ?n \<longrightarrow> ?n \<le> 0 + run_total E" by auto
  then have "?n \<le> run_total E" by arith
  with enc out runs show ?thesis by (intro exI [of _ P] exI [of _ E]) simp
qed

text \<open>
  When the pixel behind the image can be read and differs from the last pixel of the image,
  \<^verbatim>\<open>kif_encode\<close> returns a buffer, and its run lengths sum to \<open>Width * Height\<close>.
\<close>

lemma kif_encode_returns:
  assumes n: "unat (Width h) * unat (Height h) = n"
    and readable: "n < length px"
    and sentinel: "0 < n \<longrightarrow> px ! n \<noteq> px ! (n - 1)"
    and size: "16 + 4 * 65536 + n * 2 \<le> INT_MAX"
  shows "\<exists>h' P E len. kif_encode (Some px) (Some h) True =
             Inr (h', header_bytes h' @ palette_bytes P @ rle_bytes E, len) \<and>
           rle_loop px P n 0 [] = Inr E \<and> run_total E = n"
proof -
  from size have small: "n \<le> INT_MAX" by simp
  let ?P = "spec_palette (take n px)"
  from n readable small have P: "generate_palette px h = Inr ?P"
    by (simp add: generate_palette_eq)
  have lenP: "length ?P \<le> 65536" by (simp add: length_spec_palette)
  from rle_loop_sentinel [OF readable small sentinel, of 0 ?P "[]"] obtain E where
    E: "rle_loop px ?P n 0 [] = Inr E" and total: "run_total E = n" by auto
  from rle_loop_Inr [OF E] have "length E \<le> n" by auto
  with lenP size have fit: "16 + 4 * length ?P + length E * 2 \<le> INT_MAX" by simp
  from E n have E': "rle_loop px ?P (unat (Width h) * unat (Height h)) 0 [] = Inr E" by simp
  from kif_encode_result [OF P E' fit] E total show ?thesis by blast
qed

end
